theory Spec2Isabelle
  imports Complex_Main "HOL-Library.Multiset" "HOL-Library.Sublist"
begin

section \<open>Data model\<close>

text \<open>
  The types of the types module (held in \<^verbatim>\<open>src/main.tsx\<close>). JavaScript numbers are real
  numbers here (no rounding error, no NaN, no infinities). Record fields keep the source's names
  except where a name is reserved or would shadow a common variable: \<^verbatim>\<open>KeyFrame.value\<close>
  is \<open>kvalue\<close>, \<^verbatim>\<open>Actor.id\<close> is \<open>actor_id\<close>, the fields of \<^verbatim>\<open>ExportedCue\<close> are
  \<open>cue_t\<close>, \<open>cue_id\<close>, \<open>cue_state\<close>, and the fields of \<^verbatim>\<open>CanvasBackground\<close> and
  \<^verbatim>\<open>Project\<close> carry the prefixes \<open>bg_\<close> and \<open>project_\<close>.
\<close>

datatype Polygon =
    Rectangle real real real real
  | Arbitrary "(real \<times> real) list"

record Shape =
  geometry :: Polygon
  offColor :: string
  onColor :: string

record KeyFrame =
  time :: real
  kvalue :: real

datatype InterpolationType = Step | Linear

record Actor =
  actor_id :: string
  label :: string
  shapes :: "Shape list"
  keyframes :: "KeyFrame list"
  interpolation :: InterpolationType

record CanvasBackground =
  bg_id :: string
  bg_dataUrl :: string
  bg_x :: real
  bg_y :: real
  bg_width :: real
  bg_height :: real
  bg_zIndex :: real

record Project =
  project_name :: string
  project_songFilename :: string
  project_canvasSize :: "real \<times> real"

record PlaybackState =
  currentTime :: real
  isPlaying :: bool
  duration :: real

datatype Tool = SelectTool | RectangleTool | PolygonTool

record UIState =
  selectedActorId :: "string option"
  selectedBackgroundId :: "string option"
  zoom :: real
  scrollX :: real
  scrollY :: real
  tool :: Tool

record ExportedCue =
  cue_t :: real
  cue_id :: string
  cue_state :: real

text \<open>The runtime-only audio objects of the store are opaque.\<close>

typedecl AudioBuffer
typedecl AudioFile

record ProjectState =
  project :: Project
  actors :: "Actor list"
  backgrounds :: "CanvasBackground list"
  playback :: PlaybackState
  ui :: UIState
  audioBuffer :: "AudioBuffer option"
  audioFile :: "AudioFile option"

datatype error = TypeError | DivisionByZero

section \<open>Array.prototype.sort\<close>

text \<open>
  \<^verbatim>\<open>xs.sort(cmp)\<close> is a stable sort: \<open>a\<close> is placed before \<open>b\<close> when \<^verbatim>\<open>cmp(a, b) < 0\<close>,
  and elements that compare equal keep their order. It is modelled as a stable
  insertion sort over the comparator.
\<close>

fun insertBy :: "('a \<Rightarrow> 'a \<Rightarrow> real) \<Rightarrow> 'a \<Rightarrow> 'a list \<Rightarrow> 'a list" where
  "insertBy cmp x [] = [x]"
| "insertBy cmp x (y # ys) = (if cmp x y \<le> 0 then x # y # ys else y # insertBy cmp x ys)"

definition sortBy :: "('a \<Rightarrow> 'a \<Rightarrow> real) \<Rightarrow> 'a list \<Rightarrow> 'a list" where
  "sortBy cmp xs = foldr (insertBy cmp) xs []"

section \<open>Interpolation engine (the store module, getActorValueAtTime)\<close>

text \<open>
  One iteration of the \<^verbatim>\<open>for (const kf of keyframes)\<close> loop over the pair
  \<open>(before, after)\<close>: \<open>before\<close> is overwritten by every keyframe at or before the
  query time, \<open>after\<close> is set once, by the first keyframe at or after it.
\<close>

definition scanStep :: "real \<Rightarrow> KeyFrame option \<times> KeyFrame option \<Rightarrow> KeyFrame
    \<Rightarrow> KeyFrame option \<times> KeyFrame option" where
  "scanStep t ba kf =
     (let before = (if time kf \<le> t then Some kf else fst ba);
          after = (if time kf \<ge> t \<and> snd ba = None then Some kf else snd ba)
      in (before, after))"

definition findSurrounding :: "KeyFrame list \<Rightarrow> real \<Rightarrow> KeyFrame option \<times> KeyFrame option" where
  "findSurrounding kfs t = foldl (scanStep t) (None, None) kfs"

definition getActorValueAtTime :: "Actor \<Rightarrow> real \<Rightarrow> real" where
  "getActorValueAtTime actor t =
     (if length (keyframes actor) = 0 then 0
      else case findSurrounding (keyframes actor) t of
        (None, after) \<Rightarrow> (case after of Some a \<Rightarrow> kvalue a | None \<Rightarrow> 0)
      | (Some b, None) \<Rightarrow> kvalue b
      | (Some b, Some a) \<Rightarrow>
          if time b = time a then kvalue b
          else (case interpolation actor of
                  Linear \<Rightarrow>
                    (let u = (t - time b) / (time a - time b)
                     in kvalue b + u * (kvalue a - kvalue b))
                | Step \<Rightarrow> kvalue b))"

text \<open>The invariant of the data model: time-ascending with at most one keyframe per time.\<close>

definition sortedUnique :: "KeyFrame list \<Rightarrow> bool" where
  "sortedUnique kfs = (sorted (map time kfs) \<and> distinct (map time kfs))"

subsection \<open>The reference definition of the specification\<close>

text \<open>
  Written from the specification's words, to be compared with the scan above:
  \<open>before\<close> is the keyframe of greatest time at or before the query time,
  \<open>after\<close> the keyframe of least time at or after it.
\<close>

definition before_spec :: "KeyFrame list \<Rightarrow> real \<Rightarrow> KeyFrame option" where
  "before_spec kfs t =
     (let c = filter (\<lambda>k. time k \<le> t) kfs
      in if c = [] then None else find (\<lambda>k. time k = Max (time ` set c)) c)"

definition after_spec :: "KeyFrame list \<Rightarrow> real \<Rightarrow> KeyFrame option" where
  "after_spec kfs t =
     (let c = filter (\<lambda>k. time k \<ge> t) kfs
      in if c = [] then None else find (\<lambda>k. time k = Min (time ` set c)) c)"

definition valueAt_spec :: "Actor \<Rightarrow> real \<Rightarrow> real" where
  "valueAt_spec actor t =
     (if keyframes actor = [] then 0
      else case (before_spec (keyframes actor) t, after_spec (keyframes actor) t) of
        (None, Some a) \<Rightarrow> kvalue a
      | (Some b, None) \<Rightarrow> kvalue b
      | (Some b, Some a) \<Rightarrow>
          if time b = time a then kvalue b
          else if interpolation actor = Step then kvalue b
          else kvalue b + ((t - time b) / (time a - time b)) * (kvalue a - kvalue b)
      | (None, None) \<Rightarrow> 0)"

section \<open>Store actions (the store module, useProjectStore)\<close>

text \<open>
  An action passed to \<^verbatim>\<open>set\<close> returns the fields it replaces; every other field of
  the state is kept.
\<close>

definition initialProject :: Project where
  "initialProject =
     \<lparr>project_name = ''Untitled Project'', project_songFilename = [],
      project_canvasSize = (1920, 1080)\<rparr>"

definition initialPlayback :: PlaybackState where
  "initialPlayback = \<lparr>currentTime = 0, isPlaying = False, duration = 0\<rparr>"

definition initialUI :: UIState where
  "initialUI =
     \<lparr>selectedActorId = None, selectedBackgroundId = None, zoom = 100,
      scrollX = 0, scrollY = 0, tool = SelectTool\<rparr>"

definition initialState :: ProjectState where
  "initialState =
     \<lparr>project = initialProject, actors = [], backgrounds = [],
      playback = initialPlayback, ui = initialUI, audioBuffer = None, audioFile = None\<rparr>"

definition removeActor :: "string \<Rightarrow> ProjectState \<Rightarrow> ProjectState" where
  "removeActor ident state =
     state\<lparr>actors := filter (\<lambda>a. actor_id a \<noteq> ident) (actors state),
           ui := (if selectedActorId (ui state) = Some ident
                  then (ui state)\<lparr>selectedActorId := None\<rparr>
                  else ui state)\<rparr>"

definition addKeyframe :: "string \<Rightarrow> KeyFrame \<Rightarrow> ProjectState \<Rightarrow> ProjectState" where
  "addKeyframe actorId keyframe state =
     state\<lparr>actors := map (\<lambda>a.
        if actor_id a \<noteq> actorId then a
        else (let filtered = filter (\<lambda>k. time k \<noteq> time keyframe) (keyframes a);
                  newKeyframes = sortBy (\<lambda>x y. time x - time y) (filtered @ [keyframe])
              in a\<lparr>keyframes := newKeyframes\<rparr>)) (actors state)\<rparr>"

section \<open>History manager (the temporal middleware around the store)\<close>

text \<open>The options the store passes to the middleware: the tracked slice and the limit.\<close>

record TrackedSlice =
  ts_project :: Project
  ts_actors :: "Actor list"
  ts_backgrounds :: "CanvasBackground list"

definition partialize :: "ProjectState \<Rightarrow> TrackedSlice" where
  "partialize state =
     \<lparr>ts_project = project state, ts_actors = actors state, ts_backgrounds = backgrounds state\<rparr>"

definition limit :: nat where
  "limit = 100"

text \<open>
  Modelled from the spec: the state of the history manager (the \<^verbatim>\<open>temporal\<close> middleware of
  the imported package \<^verbatim>\<open>zundo\<close>, whose code the repository does not hold). Three ordered
  sequences: \<open>past\<close>, older snapshots, oldest first; \<open>present\<close>, the current tracked
  slice; \<open>future\<close>, the snapshots available for redo, nearest first.
\<close>

record 's History =
  pastStates :: "'s list"
  present :: 's
  futureStates :: "'s list"

text \<open>Modelled from the spec: a fresh history, holding the initial state only.\<close>

definition initHistory :: "'s \<Rightarrow> 's History" where
  "initHistory s = \<lparr>pastStates = [], present = s, futureStates = []\<rparr>"

text \<open>
  Modelled from the spec: the recording of a mutation by the same middleware, of which the
  repository holds only the call with its options. On every tracked mutation the previous
  present is pushed onto \<open>past\<close>, \<open>present\<close> becomes the new state and \<open>future\<close> is
  cleared; if \<open>past\<close> exceeds the capacity the oldest entry is evicted.
\<close>

definition handleSet :: "'s \<Rightarrow> 's History \<Rightarrow> 's History" where
  "handleSet new h =
     (let pushed = pastStates h @ [present h]
      in \<lparr>pastStates = (if length pushed > limit then tl pushed else pushed),
          present = new,
          futureStates = []\<rparr>)"

text \<open>
  Modelled from the spec: \<^verbatim>\<open>undo()\<close> of the same middleware. No-op if \<open>past\<close> is empty;
  else pop the newest entry from \<open>past\<close>, push the current present onto the front of
  \<open>future\<close>, set \<open>present\<close> to the popped entry.
\<close>

definition undo :: "'s History \<Rightarrow> 's History" where
  "undo h =
     (if pastStates h = [] then h
      else \<lparr>pastStates = butlast (pastStates h),
            present = last (pastStates h),
            futureStates = present h # futureStates h\<rparr>)"

text \<open>
  Modelled from the spec: \<^verbatim>\<open>redo()\<close> of the same middleware, the symmetric inverse of
  \<open>undo\<close>; no-op if \<open>future\<close> is empty.
\<close>

definition redo :: "'s History \<Rightarrow> 's History" where
  "redo h =
     (if futureStates h = [] then h
      else \<lparr>pastStates = pastStates h @ [present h],
            present = hd (futureStates h),
            futureStates = tl (futureStates h)\<rparr>)"

text \<open>The operations on the history, and a run of them; a tracked mutation of the store
  reaches the history as the tracked slice of the new state.\<close>

datatype 's HistoryOp = Mutate 's | Undo | Redo

fun applyOp :: "'s History \<Rightarrow> 's HistoryOp \<Rightarrow> 's History" where
  "applyOp h (Mutate s) = handleSet s h"
| "applyOp h Undo = undo h"
| "applyOp h Redo = redo h"

definition runOps :: "'s History \<Rightarrow> 's HistoryOp list \<Rightarrow> 's History" where
  "runOps h ops = foldl applyOp h ops"

definition isMutate :: "'s HistoryOp \<Rightarrow> bool" where
  "isMutate op = (case op of Mutate _ \<Rightarrow> True | _ \<Rightarrow> False)"

text \<open>The snapshots a history holds, oldest first: the past, the present, the future.\<close>

definition timeline :: "'s History \<Rightarrow> 's list" where
  "timeline h = pastStates h @ present h # futureStates h"

definition trackAll :: "ProjectState \<Rightarrow> ProjectState list \<Rightarrow> TrackedSlice History" where
  "trackAll s0 ss = runOps (initHistory (partialize s0)) (map (\<lambda>s. Mutate (partialize s)) ss)"

text \<open>A store state that differs from the initial one in the project name only.\<close>

abbreviation renamed :: "nat \<Rightarrow> ProjectState" where
  "renamed n \<equiv> initialState\<lparr>project := initialProject\<lparr>project_name := replicate n CHR ''x''\<rparr>\<rparr>"

section \<open>Cue sampler (the Toolbar component, generateCues)\<close>

text \<open>\<^verbatim>\<open>Math.round(v)\<close> rounds to the nearest integer, halves upwards.\<close>

definition Math_round :: "real \<Rightarrow> int" where
  "Math_round v = \<lfloor>v + 1 / 2\<rfloor>"


text \<open>The \<^verbatim>\<open>duration === 0\<close> branch: per actor, the initial state and one cue per keyframe.\<close>

definition keyframeCues :: "Actor list \<Rightarrow> ExportedCue list" where
  "keyframeCues as =
     concat (map (\<lambda>actor.
        \<lparr>cue_t = 0, cue_id = label actor, cue_state = getActorValueAtTime actor 0\<rparr>
        # map (\<lambda>kf. \<lparr>cue_t = time kf, cue_id = label actor, cue_state = kvalue kf\<rparr>)
              (keyframes actor)) as)"

text \<open>The body of the sampling loop at time \<open>t\<close>: one rounded cue per actor.\<close>

definition sampleAt :: "Actor list \<Rightarrow> real \<Rightarrow> ExportedCue list" where
  "sampleAt as t =
     map (\<lambda>actor.
        (let v = getActorValueAtTime actor t
         in \<lparr>cue_t = real_of_int (Math_round (t * 1000)) / 1000,
             cue_id = label actor,
             cue_state = real_of_int (Math_round (v * 1000)) / 1000\<rparr>)) as"

text \<open>
  \<^verbatim>\<open>for (let t = 0; t <= duration; t += tickRate)\<close>. The loop need not end (a tick rate
  that is not positive never leaves it), so not returning is the value \<open>None\<close>.
\<close>

partial_function (option) sampleLoop ::
    "Actor list \<Rightarrow> real \<Rightarrow> real \<Rightarrow> real \<Rightarrow> ExportedCue list \<Rightarrow> ExportedCue list option" where
  "sampleLoop as dur tickRate t cues =
     (if t \<le> dur then sampleLoop as dur tickRate (t + tickRate) (cues @ sampleAt as t)
      else Some cues)"

text \<open>
  The comparator \<^verbatim>\<open>(a, b) => a.t - b.t || a.id.localeCompare(b.id)\<close>. The collation
  \<^verbatim>\<open>localeCompare\<close> belongs to the platform and is a parameter.
\<close>

definition cueCompare :: "(string \<Rightarrow> string \<Rightarrow> int) \<Rightarrow> ExportedCue \<Rightarrow> ExportedCue \<Rightarrow> real" where
  "cueCompare localeCompare a b =
     (if cue_t a - cue_t b \<noteq> 0 then cue_t a - cue_t b
      else real_of_int (localeCompare (cue_id a) (cue_id b)))"

text \<open>
  The function reads the actors and the playback state of the store and the tick rate of
  the export dialog. \<^verbatim>\<open>playback.duration || 0\<close> is the duration itself on real numbers.
\<close>

definition generateCues ::
    "(string \<Rightarrow> string \<Rightarrow> int) \<Rightarrow> Actor list \<Rightarrow> PlaybackState \<Rightarrow> real \<Rightarrow> ExportedCue list option" where
  "generateCues localeCompare as pb tickRate =
     (let dur = duration pb
      in if dur = 0 then Some (sortBy (cueCompare localeCompare) (keyframeCues as))
         else map_option (sortBy (cueCompare localeCompare)) (sampleLoop as dur tickRate 0 []))"

text \<open>The order the export promises: ascending \<open>t\<close>, ties by the collation of \<open>id\<close>.\<close>

definition cueOrdered :: "(string \<Rightarrow> string \<Rightarrow> int) \<Rightarrow> ExportedCue \<Rightarrow> ExportedCue \<Rightarrow> bool" where
  "cueOrdered localeCompare a b =
     (cue_t a < cue_t b \<or> (cue_t a = cue_t b \<and> localeCompare (cue_id a) (cue_id b) \<le> 0))"

text \<open>A collation is consistent when it is total and transitive.\<close>

definition consistentCollation :: "(string \<Rightarrow> string \<Rightarrow> int) \<Rightarrow> bool" where
  "consistentCollation lc =
     ((\<forall>a b. lc a b \<le> 0 \<or> lc b a \<le> 0) \<and>
      (\<forall>a b c. lc a b \<le> 0 \<longrightarrow> lc b c \<le> 0 \<longrightarrow> lc a c \<le> 0))"

text \<open>The lexicographic comparison of two strings by character code.\<close>

fun lexCompare :: "string \<Rightarrow> string \<Rightarrow> int" where
  "lexCompare [] [] = 0"
| "lexCompare [] (y # ys) = - 1"
| "lexCompare (x # xs) [] = 1"
| "lexCompare (x # xs) (y # ys) =
     (if (of_char x :: nat) < of_char y then - 1
      else if (of_char y :: nat) < of_char x then 1
      else lexCompare xs ys)"

section \<open>Geometry (components/canvas/CanvasPanel.tsx, isPointInPolygon)\<close>

text \<open>Division, with the division by zero made visible.\<close>

definition divide_checked :: "real \<Rightarrow> real \<Rightarrow> error + real" where
  "divide_checked a b = (if b = 0 then Inl DivisionByZero else Inr (a / b))"

text \<open>Reading \<^verbatim>\<open>points[i]\<close>; beyond the array the read of its component fails.\<close>

definition pointAt :: "(real \<times> real) list \<Rightarrow> nat \<Rightarrow> error + real \<times> real" where
  "pointAt points i = (if i < length points then Inr (points ! i) else Inl TypeError)"

definition crossing :: "real \<Rightarrow> real \<Rightarrow> real \<Rightarrow> bool" where
  "crossing y yi yj = ((yi > y) \<noteq> (yj > y))"

text \<open>The condition of the loop body; \<^verbatim>\<open>&&\<close> evaluates the division only on a crossing.\<close>

definition edgeTest :: "real \<Rightarrow> real \<Rightarrow> real \<times> real \<Rightarrow> real \<times> real \<Rightarrow> error + bool" where
  "edgeTest x y p q =
     (let xi = fst p; yi = snd p; xj = fst q; yj = snd q
      in if crossing y yi yj
         then (case divide_checked ((xj - xi) * (y - yi)) (yj - yi) of
                 Inl e \<Rightarrow> Inl e
               | Inr d \<Rightarrow> Inr (x < d + xi))
         else Inr False)"

text \<open>
  \<^verbatim>\<open>for (let i = 0, j = points.length - 1; i < points.length; j = i++)\<close>. On an empty list
  the body is never entered and \<open>j\<close> is never read.
\<close>

function rayLoop :: "(real \<times> real) list \<Rightarrow> real \<Rightarrow> real \<Rightarrow> nat \<Rightarrow> nat \<Rightarrow> bool \<Rightarrow> error + bool" where
  "rayLoop points x y i j inside =
     (if i < length points then
        (case pointAt points i of
           Inl e \<Rightarrow> Inl e
         | Inr p \<Rightarrow>
            (case pointAt points j of
               Inl e \<Rightarrow> Inl e
             | Inr q \<Rightarrow>
                (case edgeTest x y p q of
                   Inl e \<Rightarrow> Inl e
                 | Inr c \<Rightarrow> rayLoop points x y (i + 1) i (if c then \<not> inside else inside))))
      else Inr inside)"
  by pat_completeness auto
termination
  by (relation "measure (\<lambda>(points, x, y, i, j, inside). length points - i)") auto

definition isPointInPolygon :: "real \<Rightarrow> real \<Rightarrow> Polygon \<Rightarrow> error + bool" where
  "isPointInPolygon x y polygon =
     (case polygon of
        Rectangle rx ry rw rh \<Rightarrow>
          Inr (x \<ge> rx \<and> x \<le> rx + rw \<and> y \<ge> ry \<and> y \<le> ry + rh)
      | Arbitrary points \<Rightarrow> rayLoop points x y 0 (length points - 1) False)"

section \<open>File migration (the types module, migrateGrisFile)\<close>

text \<open>
  The argument is of type \<^verbatim>\<open>unknown\<close>: any value a parsed project file can be. An
  object is the list of its properties; \<open>JUndefined\<close> is what reading an absent
  property gives.
\<close>

datatype jsval =
    JUndefined
  | JNull
  | JBool bool
  | JNum real
  | JStr string
  | JArr "jsval list"
  | JObj "(string \<times> jsval) list"

text \<open>Truthiness, as \<^verbatim>\<open>!v\<close>, \<^verbatim>\<open>v || d\<close> and \<^verbatim>\<open>v ? a : b\<close> test it.\<close>

fun truthy :: "jsval \<Rightarrow> bool" where
  "truthy JUndefined = False"
| "truthy JNull = False"
| "truthy (JBool b) = b"
| "truthy (JNum n) = (n \<noteq> 0)"
| "truthy (JStr s) = (s \<noteq> [])"
| "truthy (JArr xs) = True"
| "truthy (JObj kvs) = True"

definition orElse :: "jsval \<Rightarrow> jsval \<Rightarrow> jsval" where
  "orElse v d = (if truthy v then v else d)"

text \<open>
  Reading a property: a TypeError on \<^verbatim>\<open>null\<close> and \<^verbatim>\<open>undefined\<close>, the stored value on an
  object, and \<^verbatim>\<open>undefined\<close> for an absent property. None of the names the migration
  reads is a property of an array or of a primitive value.
\<close>

fun getProp :: "jsval \<Rightarrow> string \<Rightarrow> error + jsval" where
  "getProp JUndefined k = Inl TypeError"
| "getProp JNull k = Inl TypeError"
| "getProp (JObj kvs) k = Inr (case map_of kvs k of Some v \<Rightarrow> v | None \<Rightarrow> JUndefined)"
| "getProp v k = Inr JUndefined"

definition thenE :: "error + 'a \<Rightarrow> ('a \<Rightarrow> error + 'b) \<Rightarrow> error + 'b" where
  "thenE r f = (case r of Inl e \<Rightarrow> Inl e | Inr v \<Rightarrow> f v)"

fun mapE :: "('a \<Rightarrow> error + 'b) \<Rightarrow> 'a list \<Rightarrow> error + 'b list" where
  "mapE f [] = Inr []"
| "mapE f (x # xs) =
     (case f x of
        Inl e \<Rightarrow> Inl e
      | Inr y \<Rightarrow> (case mapE f xs of Inl e \<Rightarrow> Inl e | Inr ys \<Rightarrow> Inr (y # ys)))"

text \<open>\<^verbatim>\<open>v.map(f)\<close>: only an array has the method; calling it on anything else is a TypeError.\<close>

definition jsMap :: "(jsval \<Rightarrow> error + jsval) \<Rightarrow> jsval \<Rightarrow> error + jsval" where
  "jsMap f v =
     (case v of
        JArr xs \<Rightarrow> (case mapE f xs of Inl e \<Rightarrow> Inl e | Inr ys \<Rightarrow> Inr (JArr ys))
      | _ \<Rightarrow> Inl TypeError)"

definition GRIS_FILE_VERSION :: real where
  "GRIS_FILE_VERSION = 2"

text \<open>The callback of \<^verbatim>\<open>.map\<close> in the migration: one legacy actor to one current actor.\<close>

definition migrateActor :: "jsval \<Rightarrow> error + jsval" where
  "migrateActor actor =
     thenE (getProp actor ''id'') (\<lambda>ident.
     thenE (getProp actor ''label'') (\<lambda>lbl.
     thenE (getProp actor ''shape'') (\<lambda>shape.
     thenE (getProp actor ''keyframes'') (\<lambda>kfs.
     thenE (getProp actor ''interpolation'') (\<lambda>interp.
       Inr (JObj [(''id'', ident),
                  (''label'', lbl),
                  (''shapes'', if truthy shape then JArr [shape] else JArr []),
                  (''keyframes'', orElse kfs (JArr [])),
                  (''interpolation'', orElse interp (JStr ''step''))]))))))"

definition migrateGrisFile :: "jsval \<Rightarrow> error + jsval" where
  "migrateGrisFile data =
     thenE (getProp data ''version'') (\<lambda>version.
       if \<not> truthy version \<or> version = JNum 1 then
         thenE (getProp data ''project'') (\<lambda>proj.
         thenE (getProp data ''backgrounds'') (\<lambda>bgs.
         thenE (getProp data ''actors'') (\<lambda>acts.
         thenE (jsMap migrateActor (orElse acts (JArr []))) (\<lambda>migrated.
           Inr (JObj [(''version'', JNum GRIS_FILE_VERSION),
                      (''project'', proj),
                      (''backgrounds'', orElse bgs (JArr [])),
                      (''actors'', migrated)])))))
       else Inr data)"

section \<open>Facts about the keyframe scan\<close>

lemma sortedUnique_strict: "sortedUnique kfs = sorted_wrt (\<lambda>a b. time a < time b) kfs"
  unfolding sortedUnique_def using strict_sorted_iff[of "map time kfs"]
  by (simp add: sorted_wrt_map)

lemma scan_fst:
  "fst (foldl (scanStep t) (b, a) kfs) =
     (case filter (\<lambda>k. time k \<le> t) kfs of [] \<Rightarrow> b | c # cs \<Rightarrow> Some (last (c # cs)))"
  by (induction kfs arbitrary: b a) (auto simp: scanStep_def Let_def split: list.splits)

lemma scan_snd:
  "snd (foldl (scanStep t) (b, a) kfs) =
     (case a of Some x \<Rightarrow> Some x
      | None \<Rightarrow> (case filter (\<lambda>k. time k \<ge> t) kfs of [] \<Rightarrow> None | c # cs \<Rightarrow> Some c))"
  by (induction kfs arbitrary: b a) (auto simp: scanStep_def Let_def split: list.splits option.splits)

lemma find_last_strict:
  "sorted_wrt (\<lambda>a b. time a < time b) c \<Longrightarrow> c \<noteq> [] \<Longrightarrow>
   find (\<lambda>k. time k = Max (time ` set c)) c = Some (last c)"
proof -
  assume s: "sorted_wrt (\<lambda>a b. time a < time b) c" and ne: "c \<noteq> []"
  have le: "\<forall>k \<in> set c. time k \<le> time (last c)" using s ne
    by (induction c) (auto simp: less_imp_le dest: bspec[where x="last _"])
  have "Max (time ` set c) = time (last c)"
    by (rule Max_eqI) (use le ne in auto)
  moreover have "find (\<lambda>k. time k = time (last c)) c = Some (last c)" using s ne
    by (induction c) auto
  ultimately show ?thesis by simp
qed

lemma find_hd_strict:
  "sorted_wrt (\<lambda>a b. time a < time b) c \<Longrightarrow> c \<noteq> [] \<Longrightarrow>
   find (\<lambda>k. time k = Min (time ` set c)) c = Some (hd c)"
proof -
  assume s: "sorted_wrt (\<lambda>a b. time a < time b) c" and ne: "c \<noteq> []"
  have le: "\<forall>k \<in> set c. time (hd c) \<le> time k" using s ne
    by (cases c) (auto simp: less_imp_le)
  have "Min (time ` set c) = time (hd c)"
    by (rule Min_eqI) (use le ne in auto)
  then show ?thesis using ne by (cases c) auto
qed

lemma before_spec_scan:
  assumes "sortedUnique kfs"
  shows "fst (findSurrounding kfs t) = before_spec kfs t"
proof -
  let ?c = "filter (\<lambda>k. time k \<le> t) kfs"
  have s: "sorted_wrt (\<lambda>a b. time a < time b) ?c"
    using assms by (simp add: sortedUnique_strict sorted_wrt_filter)
  show ?thesis
  proof (cases ?c)
    case Nil
    then show ?thesis by (simp add: findSurrounding_def scan_fst before_spec_def)
  next
    case (Cons x xs)
    then have "?c \<noteq> []" by simp
    from find_last_strict[OF s this] Cons show ?thesis
      by (simp add: findSurrounding_def scan_fst before_spec_def Let_def)
  qed
qed

lemma after_spec_scan:
  assumes "sortedUnique kfs"
  shows "snd (findSurrounding kfs t) = after_spec kfs t"
proof -
  let ?c = "filter (\<lambda>k. time k \<ge> t) kfs"
  have s: "sorted_wrt (\<lambda>a b. time a < time b) ?c"
    using assms by (simp add: sortedUnique_strict sorted_wrt_filter)
  show ?thesis
  proof (cases ?c)
    case Nil
    then show ?thesis by (simp add: findSurrounding_def scan_snd after_spec_def)
  next
    case (Cons x xs)
    then have "?c \<noteq> []" by simp
    from find_hd_strict[OF s this] Cons show ?thesis
      by (simp add: findSurrounding_def scan_snd after_spec_def Let_def)
  qed
qed

section \<open>The interpolation engine meets its reference definition\<close>

text \<open>
  Claim C1. For every actor whose keyframe list is time-ascending with unique times and
  every query time, \<open>getActorValueAtTime\<close> equals the reference definition: 0 on an
  empty list; otherwise, with \<open>before\<close> the keyframe of greatest time at or before the
  query time and \<open>after\<close> the keyframe of least time at or after it, the value of
  \<open>after\<close> when there is no \<open>before\<close>, the value of \<open>before\<close> when there is no
  \<open>after\<close>, the shared value when both have the same time, the value of \<open>before\<close>
  in step mode and the linear interpolation between the two in linear mode.
\<close>

theorem getActorValueAtTime_refines_spec:
  assumes "sortedUnique (keyframes actor)"
  shows "getActorValueAtTime actor t = valueAt_spec actor t"
proof -
  have "findSurrounding (keyframes actor) t =
        (before_spec (keyframes actor) t, after_spec (keyframes actor) t)"
    using before_spec_scan[OF assms, of t] after_spec_scan[OF assms, of t]
    by (metis prod.collapse)
  then show ?thesis
    by (cases "interpolation actor")
       (simp_all add: getActorValueAtTime_def valueAt_spec_def Let_def split: option.splits)
qed

lemma findSurrounding_bounds:
  assumes "findSurrounding kfs t = (Some b, Some a)"
  shows "b \<in> set kfs \<and> a \<in> set kfs \<and> time b \<le> t \<and> t \<le> time a"
proof -
  let ?cb = "filter (\<lambda>k. time k \<le> t) kfs"
  let ?ca = "filter (\<lambda>k. time k \<ge> t) kfs"
  from assms have fb: "fst (foldl (scanStep t) (None, None) kfs) = Some b"
    and fa: "snd (foldl (scanStep t) (None, None) kfs) = Some a"
    by (simp_all add: findSurrounding_def)
  from fb have "?cb \<noteq> [] \<and> b = last ?cb"
    by (auto simp: scan_fst split: list.splits)
  then have "b \<in> set ?cb" using last_in_set by blast
  moreover from fa have "?ca \<noteq> [] \<and> a = hd ?ca"
    by (auto simp: scan_snd split: list.splits)
  then have "a \<in> set ?ca" using hd_in_set by blast
  ultimately show ?thesis by simp
qed

lemma findSurrounding_nonempty:
  "kfs \<noteq> [] \<Longrightarrow> findSurrounding kfs t \<noteq> (None, None)"
proof
  assume ne: "kfs \<noteq> []" and e: "findSurrounding kfs t = (None, None)"
  from e have "fst (foldl (scanStep t) (None, None) kfs) = None"
    and "snd (foldl (scanStep t) (None, None) kfs) = None"
    by (simp_all add: findSurrounding_def)
  then have "filter (\<lambda>k. time k \<le> t) kfs = []" and "filter (\<lambda>k. time k \<ge> t) kfs = []"
    by (auto simp: scan_fst scan_snd split: list.splits)
  then have "\<forall>k \<in> set kfs. \<not> time k \<le> t \<and> \<not> time k \<ge> t"
    by (auto simp: filter_empty_conv)
  with ne show False by (cases kfs) auto
qed

lemma findSurrounding_members:
  "findSurrounding kfs t = (b, a) \<Longrightarrow>
   (\<forall>x. b = Some x \<longrightarrow> x \<in> set kfs) \<and> (\<forall>x. a = Some x \<longrightarrow> x \<in> set kfs)"
proof -
  assume e: "findSurrounding kfs t = (b, a)"
  let ?cb = "filter (\<lambda>k. time k \<le> t) kfs"
  let ?ca = "filter (\<lambda>k. time k \<ge> t) kfs"
  from e have fb: "fst (foldl (scanStep t) (None, None) kfs) = b"
    and fa: "snd (foldl (scanStep t) (None, None) kfs) = a"
    by (simp_all add: findSurrounding_def)
  have "\<And>x. b = Some x \<Longrightarrow> x \<in> set kfs"
  proof -
    fix x assume "b = Some x"
    with fb have "?cb \<noteq> [] \<and> x = last ?cb" by (auto simp: scan_fst split: list.splits)
    then have "x \<in> set ?cb" using last_in_set by blast
    then show "x \<in> set kfs" by simp
  qed
  moreover have "\<And>x. a = Some x \<Longrightarrow> x \<in> set kfs"
  proof -
    fix x assume "a = Some x"
    with fa have "?ca \<noteq> [] \<and> x = hd ?ca" by (auto simp: scan_snd split: list.splits)
    then have "x \<in> set ?ca" using hd_in_set by blast
    then show "x \<in> set kfs" by simp
  qed
  ultimately show ?thesis by blast
qed

lemma convex_unit:
  fixes u vb va :: real
  assumes "0 \<le> u" "u \<le> 1" "0 \<le> vb" "vb \<le> 1" "0 \<le> va" "va \<le> 1"
  shows "0 \<le> vb + u * (va - vb) \<and> vb + u * (va - vb) \<le> 1"
proof -
  define p where "p = (1 - u) * vb"
  define q where "q = u * va"
  have e: "vb + u * (va - vb) = p + q" by (simp add: p_def q_def algebra_simps)
  have "0 \<le> p" "0 \<le> q" using assms by (simp_all add: p_def q_def)
  moreover have "p \<le> 1 - u"
    using mult_left_mono[of vb 1 "1 - u"] assms by (simp add: p_def)
  moreover have "q \<le> u"
    using mult_left_mono[of va 1 u] assms by (simp add: q_def)
  ultimately show ?thesis unfolding e by linarith
qed

text \<open>
  Claim C6. For every actor whose keyframe values all lie in the unit interval and every
  query time, also one before the first or after the last keyframe,
  \<open>getActorValueAtTime\<close> returns a number in the unit interval; between two keyframes
  of different times the interpolation parameter lies in the unit interval, and in linear
  mode the result is the convex combination of the two keyframe values with that
  parameter. The order of the keyframe list is not needed for this.
\<close>

theorem getActorValueAtTime_in_unit_interval:
  assumes vals: "\<forall>k \<in> set (keyframes actor). 0 \<le> kvalue k \<and> kvalue k \<le> 1"
  shows "0 \<le> getActorValueAtTime actor t \<and> getActorValueAtTime actor t \<le> 1 \<and>
         (\<forall>b a. findSurrounding (keyframes actor) t = (Some b, Some a) \<and> time b \<noteq> time a \<longrightarrow>
            0 \<le> (t - time b) / (time a - time b) \<and> (t - time b) / (time a - time b) \<le> 1 \<and>
            (interpolation actor = Linear \<longrightarrow>
               getActorValueAtTime actor t =
                 (1 - (t - time b) / (time a - time b)) * kvalue b
                 + ((t - time b) / (time a - time b)) * kvalue a))"
proof -
  have par: "0 \<le> (t - time b) / (time a - time b) \<and> (t - time b) / (time a - time b) \<le> 1"
    if "findSurrounding (keyframes actor) t = (Some b, Some a)" "time b \<noteq> time a" for b a
  proof -
    from findSurrounding_bounds[OF that(1)] that(2)
    have "time b \<le> t" "t \<le> time a" "time b < time a" by auto
    then show ?thesis by simp
  qed
  have rng: "0 \<le> getActorValueAtTime actor t \<and> getActorValueAtTime actor t \<le> 1"
  proof (cases "keyframes actor = []")
    case True
    then show ?thesis by (simp add: getActorValueAtTime_def)
  next
    case False
    obtain ob oa where fs: "findSurrounding (keyframes actor) t = (ob, oa)"
      by (cases "findSurrounding (keyframes actor) t")
    from findSurrounding_members[OF fs] vals
    have vb: "\<And>x. ob = Some x \<Longrightarrow> 0 \<le> kvalue x \<and> kvalue x \<le> 1"
      and va: "\<And>x. oa = Some x \<Longrightarrow> 0 \<le> kvalue x \<and> kvalue x \<le> 1"
      by blast+
    show ?thesis
    proof (cases ob)
      case None
      then show ?thesis using False fs va
        by (cases oa) (simp_all add: getActorValueAtTime_def)
    next
      case (Some b)
      note b = this
      show ?thesis
      proof (cases oa)
        case None
        then show ?thesis using False fs b vb by (simp add: getActorValueAtTime_def)
      next
        case (Some a)
        show ?thesis
        proof (cases "time b = time a")
          case True
          then show ?thesis using False fs b Some vb by (simp add: getActorValueAtTime_def)
        next
          case neq: False
          from par[of b a] fs b Some neq
          have u: "0 \<le> (t - time b) / (time a - time b)" "(t - time b) / (time a - time b) \<le> 1"
            by simp_all
          from convex_unit[OF u] vb[OF b] va[OF Some]
          have "0 \<le> kvalue b + (t - time b) / (time a - time b) * (kvalue a - kvalue b) \<and>
                kvalue b + (t - time b) / (time a - time b) * (kvalue a - kvalue b) \<le> 1"
            by simp
          then show ?thesis using False fs b Some neq vb[OF b]
            by (cases "interpolation actor") (simp_all add: getActorValueAtTime_def Let_def)
        qed
      qed
    qed
  qed
  have lin: "getActorValueAtTime actor t =
                 (1 - (t - time b) / (time a - time b)) * kvalue b
                 + ((t - time b) / (time a - time b)) * kvalue a"
    if "findSurrounding (keyframes actor) t = (Some b, Some a)" "time b \<noteq> time a"
       "interpolation actor = Linear" for b a
  proof -
    from findSurrounding_bounds[OF that(1)] have "keyframes actor \<noteq> []" by auto
    then show ?thesis using that
      by (simp add: getActorValueAtTime_def Let_def algebra_simps)
  qed
  from rng par lin show ?thesis by blast
qed

theorem getActorValueAtTime_refines_spec_witness:
  "sortedUnique [\<lparr>time = 0, kvalue = 0\<rparr>, \<lparr>time = 10, kvalue = 1\<rparr>] \<and>
   getActorValueAtTime \<lparr>actor_id = ''a'', label = ''A'', shapes = [],
       keyframes = [\<lparr>time = 0, kvalue = 0\<rparr>, \<lparr>time = 10, kvalue = 1\<rparr>],
       interpolation = Linear\<rparr> 5 = 1/2 \<and>
   valueAt_spec \<lparr>actor_id = ''a'', label = ''A'', shapes = [],
       keyframes = [\<lparr>time = 0, kvalue = 0\<rparr>, \<lparr>time = 10, kvalue = 1\<rparr>],
       interpolation = Linear\<rparr> 5 = 1/2"
proof -
  have s: "sortedUnique [\<lparr>time = 0, kvalue = 0\<rparr>, \<lparr>time = 10, kvalue = 1\<rparr>]"
    by (simp add: sortedUnique_def)
  have v: "valueAt_spec \<lparr>actor_id = ''a'', label = ''A'', shapes = [],
       keyframes = [\<lparr>time = 0, kvalue = 0\<rparr>, \<lparr>time = 10, kvalue = 1\<rparr>],
       interpolation = Linear\<rparr> 5 = 1/2"
    by (simp add: valueAt_spec_def before_spec_def after_spec_def)
  from getActorValueAtTime_refines_spec[of "\<lparr>actor_id = ''a'', label = ''A'', shapes = [],
       keyframes = [\<lparr>time = 0, kvalue = 0\<rparr>, \<lparr>time = 10, kvalue = 1\<rparr>],
       interpolation = Linear\<rparr>" 5] s v
  show ?thesis by simp
qed


theorem getActorValueAtTime_in_unit_interval_witness:
  "0 \<le> getActorValueAtTime \<lparr>actor_id = ''a'', label = ''A'', shapes = [],
       keyframes = [\<lparr>time = 0, kvalue = 0\<rparr>, \<lparr>time = 10, kvalue = 1\<rparr>],
       interpolation = Linear\<rparr> (5/2) \<and>
   getActorValueAtTime \<lparr>actor_id = ''a'', label = ''A'', shapes = [],
       keyframes = [\<lparr>time = 0, kvalue = 0\<rparr>, \<lparr>time = 10, kvalue = 1\<rparr>],
       interpolation = Linear\<rparr> (5/2) \<le> 1 \<and>
   findSurrounding [\<lparr>time = 0, kvalue = 0\<rparr>, \<lparr>time = 10, kvalue = 1\<rparr>] (5/2)
     = (Some \<lparr>time = 0, kvalue = 0\<rparr>, Some \<lparr>time = 10, kvalue = 1\<rparr>) \<and>
   getActorValueAtTime \<lparr>actor_id = ''a'', label = ''A'', shapes = [],
       keyframes = [\<lparr>time = 0, kvalue = 0\<rparr>, \<lparr>time = 10, kvalue = 1\<rparr>],
       interpolation = Linear\<rparr> (5/2) = (1 - 1/4) * 0 + (1/4) * 1"
proof -
  have h: "\<forall>k \<in> set [\<lparr>time = 0, kvalue = 0\<rparr>, \<lparr>time = 10, kvalue = 1\<rparr>]. 0 \<le> kvalue k \<and> kvalue k \<le> 1"
    by simp
  have f: "findSurrounding [\<lparr>time = 0, kvalue = 0\<rparr>, \<lparr>time = 10, kvalue = 1\<rparr>] (5/2)
     = (Some \<lparr>time = 0, kvalue = 0\<rparr>, Some \<lparr>time = 10, kvalue = 1\<rparr>)"
    by (simp add: findSurrounding_def scanStep_def)
  from getActorValueAtTime_in_unit_interval[of "\<lparr>actor_id = ''a'', label = ''A'', shapes = [],
       keyframes = [\<lparr>time = 0, kvalue = 0\<rparr>, \<lparr>time = 10, kvalue = 1\<rparr>],
       interpolation = Linear\<rparr>" "5/2"] h f
  show ?thesis by simp
qed

section \<open>Facts about the stable insertion sort\<close>

lemma mset_insertBy: "mset (insertBy cmp x ys) = add_mset x (mset ys)"
  by (induction ys) simp_all

lemma mset_sortBy: "mset (sortBy cmp xs) = mset xs"
  unfolding sortBy_def by (induction xs) (simp_all add: mset_insertBy)

lemma set_sortBy: "set (sortBy cmp xs) = set xs"
  using mset_sortBy[of cmp xs] by (metis set_mset_mset)


lemma sorted_insertBy:
  assumes total: "\<And>a b. \<not> cmp a b \<le> 0 \<Longrightarrow> cmp b a \<le> 0"
    and trans: "\<And>a b c. cmp a b \<le> 0 \<Longrightarrow> cmp b c \<le> 0 \<Longrightarrow> cmp a c \<le> 0"
    and srt: "sorted_wrt (\<lambda>a b. cmp a b \<le> 0) ys"
  shows "sorted_wrt (\<lambda>a b. cmp a b \<le> 0) (insertBy cmp x ys)"
  using srt
proof (induction ys)
  case Nil
  then show ?case by simp
next
  case (Cons y ys)
  show ?case
  proof (cases "cmp x y \<le> 0")
    case True
    then have "\<forall>z \<in> set ys. cmp x z \<le> 0" using Cons.prems trans by auto
    with True Cons.prems show ?thesis by simp
  next
    case False
    then have yx: "cmp y x \<le> 0" by (rule total)
    have "set (insertBy cmp x ys) = insert x (set ys)"
      using mset_insertBy[of cmp x ys] by (metis set_mset_add_mset_insert set_mset_mset)
    with False yx Cons show ?thesis by auto
  qed
qed

lemma sorted_sortBy:
  assumes total: "\<And>a b. \<not> cmp a b \<le> 0 \<Longrightarrow> cmp b a \<le> 0"
    and trans: "\<And>a b c. cmp a b \<le> 0 \<Longrightarrow> cmp b c \<le> 0 \<Longrightarrow> cmp a c \<le> 0"
  shows "sorted_wrt (\<lambda>a b. cmp a b \<le> 0) (sortBy cmp xs)"
proof (induction xs)
  case Nil
  then show ?case by (simp add: sortBy_def)
next
  case (Cons x xs)
  have "sortBy cmp (x # xs) = insertBy cmp x (sortBy cmp xs)" by (simp add: sortBy_def)
  with sorted_insertBy[of cmp "sortBy cmp xs" x, OF total trans Cons.IH] show ?case by simp
qed

section \<open>Keyframe lists that are time-ascending with unique times\<close>

lemma sortedUnique_same_set:
  assumes "sortedUnique xs" "sortedUnique ys" "set xs = set ys"
  shows "xs = ys"
proof -
  have "set (map time xs) = set (map time ys)" using assms(3) by simp
  with assms(1,2) have m: "map time xs = map time ys"
    unfolding sortedUnique_def by (metis sorted_distinct_set_unique)
  from assms(1) have "inj_on time (set xs)" by (simp add: sortedUnique_def distinct_map)
  with assms(3) have "inj_on time (set xs \<union> set ys)" by simp
  with m show ?thesis by (rule map_inj_on)
qed

lemma sortedUnique_filter: "sortedUnique xs \<Longrightarrow> sortedUnique (filter P xs)"
  by (simp add: sortedUnique_strict sorted_wrt_filter)

lemma sortedUnique_resort:
  assumes "distinct (map time xs)"
  shows "sortedUnique (sortBy (\<lambda>x y. time x - time y) xs)"
proof -
  let ?c = "\<lambda>x y :: KeyFrame. time x - time y"
  have "sorted_wrt (\<lambda>a b. ?c a b \<le> 0) (sortBy ?c xs)"
    by (rule sorted_sortBy) simp_all
  then have s: "sorted (map time (sortBy ?c xs))" by (simp add: sorted_map)
  have "mset (map time (sortBy ?c xs)) = mset (map time xs)" by (simp add: mset_sortBy)
  with assms have "distinct (map time (sortBy ?c xs))" by (metis mset_eq_imp_distinct_iff)
  with s show ?thesis by (simp add: sortedUnique_def)
qed

text \<open>The keyframe list \<^verbatim>\<open>addKeyframe\<close> computes for the actor it changes.\<close>

lemma overwrite_keyframes:
  fixes kfs :: "KeyFrame list" and kf :: KeyFrame
  assumes su: "sortedUnique kfs"
  defines "new \<equiv> sortBy (\<lambda>x y. time x - time y) (filter (\<lambda>k. time k \<noteq> time kf) kfs @ [kf])"
  shows "filter (\<lambda>k. time k = time kf) new = [kf]"
    and "filter (\<lambda>k. time k \<noteq> time kf) new = filter (\<lambda>k. time k \<noteq> time kf) kfs"
    and "sortedUnique new"
proof -
  let ?f = "filter (\<lambda>k. time k \<noteq> time kf) kfs"
  from su have "distinct (map time kfs)" by (simp add: sortedUnique_def)
  then have "distinct (map time ?f)" by (rule distinct_map_filter)
  then have "distinct (map time (?f @ [kf]))" by auto
  then show n: "sortedUnique new" unfolding new_def by (rule sortedUnique_resort)
  have sn: "set new = set ?f \<union> {kf}" by (simp add: new_def set_sortBy)
  have one: "sortedUnique [kf]" by (simp add: sortedUnique_def)
  have "set (filter (\<lambda>k. time k = time kf) new) = set [kf]" using sn by auto
  with sortedUnique_filter[OF n] one show "filter (\<lambda>k. time k = time kf) new = [kf]"
    by (rule sortedUnique_same_set)
  have "set (filter (\<lambda>k. time k \<noteq> time kf) new) = set ?f" using sn by auto
  with sortedUnique_filter[OF n] sortedUnique_filter[OF su]
  show "filter (\<lambda>k. time k \<noteq> time kf) new = ?f"
    by (rule sortedUnique_same_set)
qed

lemma addKeyframe_actor:
  assumes "i < length (actors state)" "actor_id (actors state ! i) = actorId"
  shows "keyframes (actors (addKeyframe actorId kf state) ! i) =
           sortBy (\<lambda>x y. time x - time y)
             (filter (\<lambda>k. time k \<noteq> time kf) (keyframes (actors state ! i)) @ [kf])"
    and "actor_id (actors (addKeyframe actorId kf state) ! i) = actorId"
    and "length (actors (addKeyframe actorId kf state)) = length (actors state)"
  using assms by (simp_all add: addKeyframe_def Let_def)

section \<open>Store actions\<close>

text \<open>
  Claim C3. For every actor of the store with the given id whose keyframe list is
  time-ascending with unique times, and every keyframe: after \<open>addKeyframe\<close> the actor's
  list holds exactly one keyframe at that time, the new one; the keyframes at other times
  are the same, in the same order; and the list is again time-ascending with unique
  times. In particular, adding a keyframe at time 5 with value 0.2 and then one at time 5
  with value 0.9 leaves exactly one entry at time 5, with value 0.9.
\<close>

theorem addKeyframe_overwrites:
  assumes "i < length (actors state)"
    and "actor_id (actors state ! i) = actorId"
    and "sortedUnique (keyframes (actors state ! i))"
  shows "filter (\<lambda>k. time k = time kf) (keyframes (actors (addKeyframe actorId kf state) ! i)) = [kf]
       \<and> filter (\<lambda>k. time k \<noteq> time kf) (keyframes (actors (addKeyframe actorId kf state) ! i))
           = filter (\<lambda>k. time k \<noteq> time kf) (keyframes (actors state ! i))
       \<and> sortedUnique (keyframes (actors (addKeyframe actorId kf state) ! i))
       \<and> filter (\<lambda>k. time k = 5)
           (keyframes (actors (addKeyframe actorId \<lparr>time = 5, kvalue = 9 / 10\<rparr>
                                (addKeyframe actorId \<lparr>time = 5, kvalue = 2 / 10\<rparr> state)) ! i))
           = [\<lparr>time = 5, kvalue = 9 / 10\<rparr>]"
proof -
  note step = addKeyframe_actor[OF assms(1,2)]
  have a: "filter (\<lambda>k. time k = time kf) (keyframes (actors (addKeyframe actorId kf state) ! i)) = [kf]"
    and b: "filter (\<lambda>k. time k \<noteq> time kf) (keyframes (actors (addKeyframe actorId kf state) ! i))
           = filter (\<lambda>k. time k \<noteq> time kf) (keyframes (actors state ! i))"
    and c: "sortedUnique (keyframes (actors (addKeyframe actorId kf state) ! i))" for kf
    unfolding step(1) using overwrite_keyframes[OF assms(3)] by blast+
  let ?s1 = "addKeyframe actorId \<lparr>time = 5, kvalue = 2 / 10\<rparr> state"
  have i1: "i < length (actors ?s1)" using assms(1) step(3) by simp
  have sel: "time \<lparr>time = 5, kvalue = 9 / 10\<rparr> = 5" by simp
  have "filter (\<lambda>k. time k = time \<lparr>time = 5, kvalue = 9 / 10\<rparr>)
          (keyframes (actors (addKeyframe actorId \<lparr>time = 5, kvalue = 9 / 10\<rparr> ?s1) ! i))
        = [\<lparr>time = 5, kvalue = 9 / 10\<rparr>]"
    unfolding addKeyframe_actor(1)[OF i1 step(2)]
    using overwrite_keyframes(1)[OF c[of "\<lparr>time = 5, kvalue = 2 / 10\<rparr>"]] by blast
  then have d: "filter (\<lambda>k. time k = 5)
          (keyframes (actors (addKeyframe actorId \<lparr>time = 5, kvalue = 9 / 10\<rparr> ?s1) ! i))
        = [\<lparr>time = 5, kvalue = 9 / 10\<rparr>]"
    unfolding sel .
  from a b c d show ?thesis by blast
qed

theorem addKeyframe_overwrites_witness:
  "filter (\<lambda>k. time k = time \<lparr>time = 5, kvalue = 9 / 10\<rparr>)
     (keyframes (actors (addKeyframe ''a'' \<lparr>time = 5, kvalue = 9 / 10\<rparr>
        (initialState\<lparr>actors := [\<lparr>actor_id = ''a'', label = ''A'', shapes = [],
           keyframes = [\<lparr>time = 0, kvalue = 0\<rparr>, \<lparr>time = 5, kvalue = 2 / 10\<rparr>,
                        \<lparr>time = 10, kvalue = 1\<rparr>],
           interpolation = Step\<rparr>]\<rparr>)) ! 0))
     = [\<lparr>time = 5, kvalue = 9 / 10\<rparr>]
   \<and> sortedUnique (keyframes (actors (addKeyframe ''a'' \<lparr>time = 5, kvalue = 9 / 10\<rparr>
        (initialState\<lparr>actors := [\<lparr>actor_id = ''a'', label = ''A'', shapes = [],
           keyframes = [\<lparr>time = 0, kvalue = 0\<rparr>, \<lparr>time = 5, kvalue = 2 / 10\<rparr>,
                        \<lparr>time = 10, kvalue = 1\<rparr>],
           interpolation = Step\<rparr>]\<rparr>)) ! 0))
   \<and> keyframes (actors (addKeyframe ''a'' \<lparr>time = 5, kvalue = 9 / 10\<rparr>
        (initialState\<lparr>actors := [\<lparr>actor_id = ''a'', label = ''A'', shapes = [],
           keyframes = [\<lparr>time = 0, kvalue = 0\<rparr>, \<lparr>time = 5, kvalue = 2 / 10\<rparr>,
                        \<lparr>time = 10, kvalue = 1\<rparr>],
           interpolation = Step\<rparr>]\<rparr>)) ! 0)
     = [\<lparr>time = 0, kvalue = 0\<rparr>, \<lparr>time = 5, kvalue = 9 / 10\<rparr>, \<lparr>time = 10, kvalue = 1\<rparr>]"
proof -
  let ?st = "initialState\<lparr>actors := [\<lparr>actor_id = ''a'', label = ''A'', shapes = [],
           keyframes = [\<lparr>time = 0, kvalue = 0\<rparr>, \<lparr>time = 5, kvalue = 2 / 10\<rparr>,
                        \<lparr>time = 10, kvalue = 1\<rparr>],
           interpolation = Step\<rparr>]\<rparr>"
  have h1: "0 < length (actors ?st)" by simp
  have h2: "actor_id (actors ?st ! 0) = ''a''" by simp
  have h3: "sortedUnique (keyframes (actors ?st ! 0))" by (simp add: sortedUnique_def)
  have v: "keyframes (actors (addKeyframe ''a'' \<lparr>time = 5, kvalue = 9 / 10\<rparr> ?st) ! 0)
     = [\<lparr>time = 0, kvalue = 0\<rparr>, \<lparr>time = 5, kvalue = 9 / 10\<rparr>, \<lparr>time = 10, kvalue = 1\<rparr>]"
    by (simp add: addKeyframe_def sortBy_def)
  from addKeyframe_overwrites[OF h1 h2 h3, of "\<lparr>time = 5, kvalue = 9 / 10\<rparr>"] v
  show ?thesis by blast
qed

text \<open>
  Claim C8. For every store state and every id, \<open>removeActor\<close> removes exactly the actors
  with that id and keeps the others in their order; when no actor has the id the actor
  list is unchanged, and no error arises; the selected actor is cleared if and only if it
  was that id, the rest of the UI state and all other fields of the state being
  unchanged.
\<close>

theorem removeActor_exact:
  "actors (removeActor ident state) = filter (\<lambda>a. actor_id a \<noteq> ident) (actors state)
   \<and> subseq (actors (removeActor ident state)) (actors state)
   \<and> (\<forall>a. a \<in> set (actors (removeActor ident state))
           \<longleftrightarrow> a \<in> set (actors state) \<and> actor_id a \<noteq> ident)
   \<and> ((\<forall>a \<in> set (actors state). actor_id a \<noteq> ident)
        \<longrightarrow> actors (removeActor ident state) = actors state)
   \<and> (selectedActorId (ui state) = Some ident
        \<longrightarrow> ui (removeActor ident state) = (ui state)\<lparr>selectedActorId := None\<rparr>)
   \<and> (selectedActorId (ui state) \<noteq> Some ident
        \<longrightarrow> ui (removeActor ident state) = ui state)
   \<and> project (removeActor ident state) = project state
   \<and> backgrounds (removeActor ident state) = backgrounds state
   \<and> playback (removeActor ident state) = playback state
   \<and> audioBuffer (removeActor ident state) = audioBuffer state
   \<and> audioFile (removeActor ident state) = audioFile state"
proof -
  have acts: "actors (removeActor ident state) = filter (\<lambda>a. actor_id a \<noteq> ident) (actors state)"
    by (simp add: removeActor_def)
  have sub: "subseq (actors (removeActor ident state)) (actors state)"
    unfolding acts by (rule subseq_filter_left)
  have mem: "\<forall>a. a \<in> set (actors (removeActor ident state))
           \<longleftrightarrow> a \<in> set (actors state) \<and> actor_id a \<noteq> ident"
    unfolding acts by simp
  have noop: "(\<forall>a \<in> set (actors state). actor_id a \<noteq> ident)
        \<longrightarrow> actors (removeActor ident state) = actors state"
    unfolding acts by (simp add: filter_id_conv)
  have rest: "(selectedActorId (ui state) = Some ident
        \<longrightarrow> ui (removeActor ident state) = (ui state)\<lparr>selectedActorId := None\<rparr>)
   \<and> (selectedActorId (ui state) \<noteq> Some ident
        \<longrightarrow> ui (removeActor ident state) = ui state)
   \<and> project (removeActor ident state) = project state
   \<and> backgrounds (removeActor ident state) = backgrounds state
   \<and> playback (removeActor ident state) = playback state
   \<and> audioBuffer (removeActor ident state) = audioBuffer state
   \<and> audioFile (removeActor ident state) = audioFile state"
    by (simp add: removeActor_def)
  from acts sub mem noop rest show ?thesis by blast
qed

theorem removeActor_exact_witness:
  "actors (removeActor ''b''
      (initialState\<lparr>actors := [\<lparr>actor_id = ''a'', label = ''A'', shapes = [], keyframes = [],
                                  interpolation = Step\<rparr>],
                    ui := initialUI\<lparr>selectedActorId := Some ''b''\<rparr>\<rparr>))
     = [\<lparr>actor_id = ''a'', label = ''A'', shapes = [], keyframes = [], interpolation = Step\<rparr>]
   \<and> ui (removeActor ''b''
      (initialState\<lparr>actors := [\<lparr>actor_id = ''a'', label = ''A'', shapes = [], keyframes = [],
                                  interpolation = Step\<rparr>],
                    ui := initialUI\<lparr>selectedActorId := Some ''b''\<rparr>\<rparr>))
     = initialUI
   \<and> actors (removeActor ''a''
      (initialState\<lparr>actors := [\<lparr>actor_id = ''a'', label = ''A'', shapes = [], keyframes = [],
                                  interpolation = Step\<rparr>],
                    ui := initialUI\<lparr>selectedActorId := Some ''b''\<rparr>\<rparr>))
     = []
   \<and> ui (removeActor ''a''
      (initialState\<lparr>actors := [\<lparr>actor_id = ''a'', label = ''A'', shapes = [], keyframes = [],
                                  interpolation = Step\<rparr>],
                    ui := initialUI\<lparr>selectedActorId := Some ''b''\<rparr>\<rparr>))
     = initialUI\<lparr>selectedActorId := Some ''b''\<rparr>"
  using removeActor_exact[of "''b''" "initialState\<lparr>actors := [\<lparr>actor_id = ''a'', label = ''A'',
            shapes = [], keyframes = [], interpolation = Step\<rparr>],
          ui := initialUI\<lparr>selectedActorId := Some ''b''\<rparr>\<rparr>"]
    removeActor_exact[of "''a''" "initialState\<lparr>actors := [\<lparr>actor_id = ''a'', label = ''A'',
            shapes = [], keyframes = [], interpolation = Step\<rparr>],
          ui := initialUI\<lparr>selectedActorId := Some ''b''\<rparr>\<rparr>"]
  by (simp add: initialUI_def)

section \<open>Geometry: the ray-casting loop never divides by zero\<close>

lemma crossing_divisor: "crossing y yi yj \<Longrightarrow> yj - yi \<noteq> 0"
  by (auto simp: crossing_def)

lemma edgeTest_total: "\<exists>c. edgeTest x y p q = Inr c"
proof (cases "crossing y (snd p) (snd q)")
  case True
  then have "snd q - snd p \<noteq> 0" by (rule crossing_divisor)
  with True show ?thesis by (simp add: edgeTest_def divide_checked_def Let_def)
next
  case False
  then have "edgeTest x y p q = Inr False" by (simp add: edgeTest_def Let_def)
  then show ?thesis by blast
qed

lemma rayLoop_total:
  "(i < length points \<longrightarrow> j < length points) \<Longrightarrow> \<exists>b. rayLoop points x y i j inside = Inr b"
proof (induction points x y i j inside rule: rayLoop.induct)
  case (1 points x y i j inside)
  show ?case
  proof (cases "i < length points")
    case False
    then show ?thesis by simp
  next
    case True
    with "1.prems" have j: "j < length points" by simp
    obtain c where c: "edgeTest x y (points ! i) (points ! j) = Inr c"
      using edgeTest_total by blast
    have "\<exists>b. rayLoop points x y (i + 1) i (if c then \<not> inside else inside) = Inr b"
      using "1.IH"[of "points ! i" "points ! j" c] True j c by (simp add: pointAt_def)
    then show ?thesis
      using True j c by (subst rayLoop.simps) (simp add: pointAt_def)
  qed
qed

text \<open>
  Claim C9. In the ray-casting loop of \<open>isPointInPolygon\<close>, for every point list and
  every query point, whenever the crossing condition of an edge holds the divisor of the
  crossing test is not zero; so no edge evaluation divides by zero, every edge test
  yields a truth value, and \<open>isPointInPolygon\<close> returns a truth value on every polygon
  (it is total).
\<close>

theorem isPointInPolygon_never_divides_by_zero:
  "(\<forall>yi yj. crossing y yi yj \<longrightarrow> yj - yi \<noteq> 0)
   \<and> (\<forall>p q. \<exists>c. edgeTest x y p q = Inr c)
   \<and> (\<exists>b. isPointInPolygon x y polygon = Inr b)"
proof -
  have "\<exists>b. isPointInPolygon x y polygon = Inr b"
  proof (cases polygon)
    case (Rectangle rx ry rw rh)
    then show ?thesis by (simp add: isPointInPolygon_def)
  next
    case (Arbitrary points)
    have "0 < length points \<longrightarrow> length points - 1 < length points" by simp
    from rayLoop_total[OF this] Arbitrary show ?thesis by (simp add: isPointInPolygon_def)
  qed
  with crossing_divisor edgeTest_total show ?thesis by blast
qed

theorem isPointInPolygon_never_divides_by_zero_witness:
  "crossing 5 0 10 \<and> (10::real) - 0 \<noteq> 0
   \<and> edgeTest 5 5 (10, 0) (10, 10) = Inr True
   \<and> isPointInPolygon 5 5 (Arbitrary [(0, 0), (10, 0), (10, 10), (0, 10)]) = Inr True"
proof -
  have c: "crossing 5 0 10" by (simp add: crossing_def)
  have v: "isPointInPolygon 5 5 (Arbitrary [(0, 0), (10, 0), (10, 10), (0, 10)]) = Inr True"
    by (simp add: isPointInPolygon_def pointAt_def edgeTest_def crossing_def divide_checked_def)
  have e: "edgeTest 5 5 (10, 0) (10, 10) = Inr True"
    by (simp add: edgeTest_def crossing_def divide_checked_def)
  from isPointInPolygon_never_divides_by_zero[of 5 5 "Arbitrary [(0, 0), (10, 0), (10, 10), (0, 10)]"]
    c v e
  show ?thesis by simp
qed

section \<open>File migration\<close>

lemma thenE_Inr_iff: "thenE r f = Inr y \<longleftrightarrow> (\<exists>v. r = Inr v \<and> f v = Inr y)"
  by (cases r) (simp_all add: thenE_def)

lemma migrateGrisFile_current:
  assumes "getProp x ''version'' = Inr v" "truthy v" "v \<noteq> JNum 1"
  shows "migrateGrisFile x = Inr x"
  using assms by (simp add: migrateGrisFile_def thenE_def)

lemma migrateGrisFile_fixed:
  assumes "migrateGrisFile x = Inr y"
  shows "migrateGrisFile y = Inr y"
proof -
  from assms obtain v where v: "getProp x ''version'' = Inr v"
    and body: "(if \<not> truthy v \<or> v = JNum 1 then
         thenE (getProp x ''project'') (\<lambda>proj.
         thenE (getProp x ''backgrounds'') (\<lambda>bgs.
         thenE (getProp x ''actors'') (\<lambda>acts.
         thenE (jsMap migrateActor (orElse acts (JArr []))) (\<lambda>migrated.
           Inr (JObj [(''version'', JNum GRIS_FILE_VERSION),
                      (''project'', proj),
                      (''backgrounds'', orElse bgs (JArr [])),
                      (''actors'', migrated)])))))
       else Inr x) = Inr y"
    unfolding migrateGrisFile_def thenE_Inr_iff by blast
  show ?thesis
  proof (cases "\<not> truthy v \<or> v = JNum 1")
    case False
    with body have "y = x" by simp
    with False v show ?thesis by (simp add: migrateGrisFile_current)
  next
    case True
    with body obtain proj bgs migrated where
      y: "y = JObj [(''version'', JNum GRIS_FILE_VERSION), (''project'', proj),
                    (''backgrounds'', orElse bgs (JArr [])), (''actors'', migrated)]"
      by (auto simp: thenE_Inr_iff)
    have "getProp y ''version'' = Inr (JNum 2)" by (simp add: y GRIS_FILE_VERSION_def)
    then show ?thesis by (rule migrateGrisFile_current) simp_all
  qed
qed

text \<open>
  Claim C5. Migration is idempotent: for every payload, migrating the result of a
  migration again gives the same result (a migration that fails fails both times), and
  migrating a file that already is of version 2 returns the file itself.
\<close>

theorem migrateGrisFile_idempotent:
  "thenE (migrateGrisFile x) migrateGrisFile = migrateGrisFile x
   \<and> (\<forall>y. migrateGrisFile x = Inr y \<longrightarrow> migrateGrisFile y = Inr y)
   \<and> (getProp x ''version'' = Inr (JNum 2) \<longrightarrow> migrateGrisFile x = Inr x)"
proof -
  have fixed: "\<forall>y. migrateGrisFile x = Inr y \<longrightarrow> migrateGrisFile y = Inr y"
    using migrateGrisFile_fixed by blast
  have "thenE (migrateGrisFile x) migrateGrisFile = migrateGrisFile x"
  proof (cases "migrateGrisFile x")
    case (Inl e)
    then show ?thesis by (simp add: thenE_def)
  next
    case (Inr y)
    with fixed show ?thesis by (simp add: thenE_def)
  qed
  moreover have "getProp x ''version'' = Inr (JNum 2) \<longrightarrow> migrateGrisFile x = Inr x"
    by (simp add: migrateGrisFile_current)
  ultimately show ?thesis using fixed by blast
qed

theorem migrateGrisFile_idempotent_witness:
  "migrateGrisFile (JObj [(''version'', JNum 1),
      (''actors'', JArr [JObj [(''id'', JStr ''a''), (''label'', JStr ''A''), (''shape'', JNull)]])])
    = Inr (JObj [(''version'', JNum 2), (''project'', JUndefined), (''backgrounds'', JArr []),
        (''actors'', JArr [JObj [(''id'', JStr ''a''), (''label'', JStr ''A''),
           (''shapes'', JArr []), (''keyframes'', JArr []), (''interpolation'', JStr ''step'')]])])
   \<and> migrateGrisFile (JObj [(''version'', JNum 2), (''project'', JUndefined),
        (''backgrounds'', JArr []),
        (''actors'', JArr [JObj [(''id'', JStr ''a''), (''label'', JStr ''A''),
           (''shapes'', JArr []), (''keyframes'', JArr []), (''interpolation'', JStr ''step'')]])])
    = Inr (JObj [(''version'', JNum 2), (''project'', JUndefined), (''backgrounds'', JArr []),
        (''actors'', JArr [JObj [(''id'', JStr ''a''), (''label'', JStr ''A''),
           (''shapes'', JArr []), (''keyframes'', JArr []), (''interpolation'', JStr ''step'')]])])"
proof -
  have m: "migrateGrisFile (JObj [(''version'', JNum 1),
      (''actors'', JArr [JObj [(''id'', JStr ''a''), (''label'', JStr ''A''), (''shape'', JNull)]])])
    = Inr (JObj [(''version'', JNum 2), (''project'', JUndefined), (''backgrounds'', JArr []),
        (''actors'', JArr [JObj [(''id'', JStr ''a''), (''label'', JStr ''A''),
           (''shapes'', JArr []), (''keyframes'', JArr []), (''interpolation'', JStr ''step'')]])])"
    by (simp add: migrateGrisFile_def migrateActor_def thenE_def jsMap_def orElse_def
        GRIS_FILE_VERSION_def)
  from migrateGrisFile_idempotent[of "JObj [(''version'', JNum 1),
      (''actors'', JArr [JObj [(''id'', JStr ''a''), (''label'', JStr ''A''), (''shape'', JNull)]])]"] m
  show ?thesis by simp
qed

lemma mapE_all_Inr:
  "(\<And>x. x \<in> set xs \<Longrightarrow> f x = Inr (g x)) \<Longrightarrow> mapE f xs = Inr (map g xs)"
  by (induction xs) simp_all

text \<open>The fields \<open>migrateActor\<close> gives a legacy actor object.\<close>

lemma migrateActor_object:
  "migrateActor (JObj a) =
     Inr (JObj [(''id'', case map_of a ''id'' of Some v \<Rightarrow> v | None \<Rightarrow> JUndefined),
                (''label'', case map_of a ''label'' of Some v \<Rightarrow> v | None \<Rightarrow> JUndefined),
                (''shapes'', if truthy (case map_of a ''shape'' of Some v \<Rightarrow> v | None \<Rightarrow> JUndefined)
                   then JArr [case map_of a ''shape'' of Some v \<Rightarrow> v | None \<Rightarrow> JUndefined]
                   else JArr []),
                (''keyframes'',
                   orElse (case map_of a ''keyframes'' of Some v \<Rightarrow> v | None \<Rightarrow> JUndefined) (JArr [])),
                (''interpolation'',
                   orElse (case map_of a ''interpolation'' of Some v \<Rightarrow> v | None \<Rightarrow> JUndefined)
                     (JStr ''step''))])"
  by (simp add: migrateActor_def thenE_def)

text \<open>
  Claim C10. For every payload object whose version field is absent or 1 and whose
  actors field is absent or an array of actor objects, the migration succeeds and fills
  the defaults: absent actors and absent backgrounds become the empty list, an actor's
  absent keyframes the empty list, its absent interpolation mode "step", its legacy shape
  the list of that shape when it is an object and the empty list when it is null or
  absent; and whenever the migration of such a payload succeeds the result carries
  version 2.
\<close>

theorem migrateGrisFile_legacy_defaults:
  assumes ver: "map_of kvs ''version'' = None \<or> map_of kvs ''version'' = Some (JNum 1)"
  shows "(\<forall>r. migrateGrisFile (JObj kvs) = Inr r \<longrightarrow> getProp r ''version'' = Inr (JNum 2))
   \<and> ((map_of kvs ''actors'' = None \<and> as = [] \<or> map_of kvs ''actors'' = Some (JArr (map JObj as)))
      \<longrightarrow> (\<exists>r ms. migrateGrisFile (JObj kvs) = Inr (JObj r)
            \<and> map_of r ''version'' = Some (JNum 2)
            \<and> (map_of kvs ''backgrounds'' = None \<longrightarrow> map_of r ''backgrounds'' = Some (JArr []))
            \<and> (map_of kvs ''actors'' = None \<longrightarrow> map_of r ''actors'' = Some (JArr []))
            \<and> map_of r ''actors'' = Some (JArr (map JObj ms))
            \<and> length ms = length as
            \<and> (\<forall>i < length as.
                 (map_of (as ! i) ''keyframes'' = None
                    \<longrightarrow> map_of (ms ! i) ''keyframes'' = Some (JArr []))
               \<and> (map_of (as ! i) ''interpolation'' = None
                    \<longrightarrow> map_of (ms ! i) ''interpolation'' = Some (JStr ''step''))
               \<and> (\<forall>s. map_of (as ! i) ''shape'' = Some (JObj s)
                    \<longrightarrow> map_of (ms ! i) ''shapes'' = Some (JArr [JObj s]))
               \<and> (map_of (as ! i) ''shape'' = Some JNull \<or> map_of (as ! i) ''shape'' = None
                    \<longrightarrow> map_of (ms ! i) ''shapes'' = Some (JArr [])))))"
proof -
  define fld where "fld k = (case map_of kvs k of Some v \<Rightarrow> v | None \<Rightarrow> JUndefined)" for k
  have gp: "getProp (JObj kvs) k = Inr (fld k)" for k by (simp add: fld_def)
  from ver have legacy: "\<not> truthy (fld ''version'') \<or> fld ''version'' = JNum 1"
    by (auto simp: fld_def)
  have mig: "migrateGrisFile (JObj kvs) =
      thenE (jsMap migrateActor (orElse (fld ''actors'') (JArr []))) (\<lambda>migrated.
        Inr (JObj [(''version'', JNum 2), (''project'', fld ''project''),
                   (''backgrounds'', orElse (fld ''backgrounds'') (JArr [])),
                   (''actors'', migrated)]))"
    using legacy unfolding migrateGrisFile_def gp by (auto simp: thenE_def GRIS_FILE_VERSION_def)
  have stamp: "\<forall>r. migrateGrisFile (JObj kvs) = Inr r \<longrightarrow> getProp r ''version'' = Inr (JNum 2)"
    unfolding mig thenE_Inr_iff by auto
  have dflt: "\<exists>r ms. migrateGrisFile (JObj kvs) = Inr (JObj r)
            \<and> map_of r ''version'' = Some (JNum 2)
            \<and> (map_of kvs ''backgrounds'' = None \<longrightarrow> map_of r ''backgrounds'' = Some (JArr []))
            \<and> (map_of kvs ''actors'' = None \<longrightarrow> map_of r ''actors'' = Some (JArr []))
            \<and> map_of r ''actors'' = Some (JArr (map JObj ms))
            \<and> length ms = length as
            \<and> (\<forall>i < length as.
                 (map_of (as ! i) ''keyframes'' = None
                    \<longrightarrow> map_of (ms ! i) ''keyframes'' = Some (JArr []))
               \<and> (map_of (as ! i) ''interpolation'' = None
                    \<longrightarrow> map_of (ms ! i) ''interpolation'' = Some (JStr ''step''))
               \<and> (\<forall>s. map_of (as ! i) ''shape'' = Some (JObj s)
                    \<longrightarrow> map_of (ms ! i) ''shapes'' = Some (JArr [JObj s]))
               \<and> (map_of (as ! i) ''shape'' = Some JNull \<or> map_of (as ! i) ''shape'' = None
                    \<longrightarrow> map_of (ms ! i) ''shapes'' = Some (JArr [])))"
    if acts: "map_of kvs ''actors'' = None \<and> as = [] \<or> map_of kvs ''actors'' = Some (JArr (map JObj as))"
  proof -
    define g where "g a =
       [(''id'', case map_of a ''id'' of Some v \<Rightarrow> v | None \<Rightarrow> JUndefined),
        (''label'', case map_of a ''label'' of Some v \<Rightarrow> v | None \<Rightarrow> JUndefined),
        (''shapes'', if truthy (case map_of a ''shape'' of Some v \<Rightarrow> v | None \<Rightarrow> JUndefined)
           then JArr [case map_of a ''shape'' of Some v \<Rightarrow> v | None \<Rightarrow> JUndefined]
           else JArr []),
        (''keyframes'',
           orElse (case map_of a ''keyframes'' of Some v \<Rightarrow> v | None \<Rightarrow> JUndefined) (JArr [])),
        (''interpolation'',
           orElse (case map_of a ''interpolation'' of Some v \<Rightarrow> v | None \<Rightarrow> JUndefined)
             (JStr ''step''))]" for a :: "(string \<times> jsval) list"
    define ms where "ms = map g as"
    define r where "r = [(''version'', JNum 2), (''project'', fld ''project''),
                   (''backgrounds'', orElse (fld ''backgrounds'') (JArr [])),
                   (''actors'', JArr (map JObj ms))]"
    from acts have oa: "orElse (fld ''actors'') (JArr []) = JArr (map JObj as)"
      by (auto simp: fld_def orElse_def)
    have "mapE migrateActor (map JObj as) = Inr (map (\<lambda>v. case v of JObj a \<Rightarrow> JObj (g a) | _ \<Rightarrow> v) (map JObj as))"
      by (rule mapE_all_Inr) (auto simp: migrateActor_object g_def)
    then have "mapE migrateActor (map JObj as) = Inr (map JObj ms)"
      by (simp add: ms_def comp_def)
    then have res: "migrateGrisFile (JObj kvs) = Inr (JObj r)"
      unfolding mig oa by (simp add: jsMap_def thenE_def r_def)
    have p1: "map_of r ''version'' = Some (JNum 2)" by (simp add: r_def)
    have p2: "map_of kvs ''backgrounds'' = None \<longrightarrow> map_of r ''backgrounds'' = Some (JArr [])"
      by (simp add: r_def fld_def orElse_def)
    have p3: "map_of kvs ''actors'' = None \<longrightarrow> map_of r ''actors'' = Some (JArr [])"
      using acts by (auto simp: r_def ms_def)
    have p4: "map_of r ''actors'' = Some (JArr (map JObj ms))" by (simp add: r_def)
    have p5: "length ms = length as" by (simp add: ms_def)
    have p6: "(map_of (as ! i) ''keyframes'' = None
                    \<longrightarrow> map_of (ms ! i) ''keyframes'' = Some (JArr []))
               \<and> (map_of (as ! i) ''interpolation'' = None
                    \<longrightarrow> map_of (ms ! i) ''interpolation'' = Some (JStr ''step''))
               \<and> (\<forall>s. map_of (as ! i) ''shape'' = Some (JObj s)
                    \<longrightarrow> map_of (ms ! i) ''shapes'' = Some (JArr [JObj s]))
               \<and> (map_of (as ! i) ''shape'' = Some JNull \<or> map_of (as ! i) ''shape'' = None
                    \<longrightarrow> map_of (ms ! i) ''shapes'' = Some (JArr []))"
      if "i < length as" for i
      using that by (auto simp: ms_def g_def orElse_def)
    show ?thesis
      by (rule exI[of _ r], rule exI[of _ ms])
         (intro conjI allI impI res p1 p2[rule_format] p3[rule_format] p4 p5 p6; assumption)
  qed
  from stamp dflt show ?thesis by blast
qed

theorem migrateGrisFile_legacy_defaults_witness:
  "map_of [(''project'', JObj [(''name'', JStr ''Show'')]),
           (''actors'', JArr [JObj [(''id'', JStr ''a''), (''label'', JStr ''A''), (''shape'', JNull)]])]
      ''version'' = None
   \<and> migrateGrisFile (JObj [(''project'', JObj [(''name'', JStr ''Show'')]),
        (''actors'', JArr [JObj [(''id'', JStr ''a''), (''label'', JStr ''A''), (''shape'', JNull)]])])
     = Inr (JObj [(''version'', JNum 2), (''project'', JObj [(''name'', JStr ''Show'')]),
         (''backgrounds'', JArr []),
         (''actors'', JArr [JObj [(''id'', JStr ''a''), (''label'', JStr ''A''),
            (''shapes'', JArr []), (''keyframes'', JArr []), (''interpolation'', JStr ''step'')]])])
   \<and> getProp (JObj [(''version'', JNum 2), (''project'', JObj [(''name'', JStr ''Show'')]),
         (''backgrounds'', JArr []),
         (''actors'', JArr [JObj [(''id'', JStr ''a''), (''label'', JStr ''A''),
            (''shapes'', JArr []), (''keyframes'', JArr []), (''interpolation'', JStr ''step'')]])])
        ''version'' = Inr (JNum 2)"
proof -
  have h: "map_of [(''project'', JObj [(''name'', JStr ''Show'')]),
           (''actors'', JArr [JObj [(''id'', JStr ''a''), (''label'', JStr ''A''), (''shape'', JNull)]])]
      ''version'' = None \<or>
      map_of [(''project'', JObj [(''name'', JStr ''Show'')]),
           (''actors'', JArr [JObj [(''id'', JStr ''a''), (''label'', JStr ''A''), (''shape'', JNull)]])]
      ''version'' = Some (JNum 1)"
    by simp
  have m: "migrateGrisFile (JObj [(''project'', JObj [(''name'', JStr ''Show'')]),
        (''actors'', JArr [JObj [(''id'', JStr ''a''), (''label'', JStr ''A''), (''shape'', JNull)]])])
     = Inr (JObj [(''version'', JNum 2), (''project'', JObj [(''name'', JStr ''Show'')]),
         (''backgrounds'', JArr []),
         (''actors'', JArr [JObj [(''id'', JStr ''a''), (''label'', JStr ''A''),
            (''shapes'', JArr []), (''keyframes'', JArr []), (''interpolation'', JStr ''step'')]])])"
    by (simp add: migrateGrisFile_def migrateActor_def thenE_def jsMap_def orElse_def
        GRIS_FILE_VERSION_def)
  from migrateGrisFile_legacy_defaults[OF h,
      of "[[(''id'', JStr ''a''), (''label'', JStr ''A''), (''shape'', JNull)]]"] m
  show ?thesis by simp
qed

section \<open>History manager\<close>

lemma handleSet_fields:
  "present (handleSet s h) = s"
  "futureStates (handleSet s h) = []"
  "length (pastStates h) < limit \<Longrightarrow> pastStates (handleSet s h) = pastStates h @ [present h]"
  "length (pastStates h) = limit \<Longrightarrow> pastStates (handleSet s h) = tl (pastStates h) @ [present h]"
proof -
  show "present (handleSet s h) = s" "futureStates (handleSet s h) = []"
    by (simp_all add: handleSet_def Let_def)
  show "length (pastStates h) < limit \<Longrightarrow> pastStates (handleSet s h) = pastStates h @ [present h]"
    by (simp add: handleSet_def Let_def)
  show "length (pastStates h) = limit \<Longrightarrow> pastStates (handleSet s h) = tl (pastStates h) @ [present h]"
    by (cases "pastStates h") (simp_all add: handleSet_def Let_def limit_def)
qed

text \<open>The invariant: past and future together never hold more than the limit.\<close>

lemma applyOp_bound:
  assumes "length (pastStates h) + length (futureStates h) \<le> limit"
  shows "length (pastStates (applyOp h op)) + length (futureStates (applyOp h op)) \<le> limit"
proof (cases op)
  case (Mutate s)
  with assms show ?thesis by (auto simp: handleSet_def Let_def)
next
  case Undo
  with assms show ?thesis by (cases "pastStates h") (auto simp: undo_def)
next
  case Redo
  with assms show ?thesis by (cases "futureStates h") (auto simp: redo_def)
qed

lemma runOps_bound:
  assumes "length (pastStates h) + length (futureStates h) \<le> limit"
  shows "length (pastStates (runOps h ops)) + length (futureStates (runOps h ops)) \<le> limit"
  using assms unfolding runOps_def
  by (induction ops arbitrary: h) (simp_all add: applyOp_bound)

text \<open>What a run of mutations alone leaves: the last \<open>limit\<close> earlier states.\<close>

lemma mutations_history:
  "runOps (initHistory s0) (map Mutate ss) =
     \<lparr>pastStates = drop (length ss - limit) (butlast (s0 # ss)),
      present = last (s0 # ss),
      futureStates = []\<rparr>"
proof (induction ss rule: rev_induct)
  case Nil
  then show ?case by (simp add: runOps_def initHistory_def)
next
  case (snoc s ss)
  let ?h = "runOps (initHistory s0) (map Mutate ss)"
  have run: "runOps (initHistory s0) (map Mutate (ss @ [s])) = handleSet s ?h"
    by (simp add: runOps_def)
  have bl: "butlast (s0 # ss @ [s]) = s0 # ss"
    using butlast_snoc[of "s0 # ss" s] by simp
  define b where "b = butlast (s0 # ss)"
  define l where "l = last (s0 # ss)"
  have whole: "b @ [l] = s0 # ss"
    unfolding b_def l_def by (rule append_butlast_last_id) simp
  have lb: "length b = length ss" unfolding b_def by simp
  have ih: "?h = \<lparr>pastStates = drop (length ss - limit) b, present = l, futureStates = []\<rparr>"
    unfolding b_def l_def by (rule snoc.IH)
  have "drop (length ss - limit) b @ [l] = drop (length ss - limit) (b @ [l])"
    using lb by simp
  then have push: "pastStates ?h @ [present ?h] = drop (length ss - limit) (s0 # ss)"
    unfolding whole by (simp add: ih)
  have len: "length (drop (length ss - limit) (s0 # ss)) > limit \<longleftrightarrow> limit \<le> length ss"
    by auto
  have past: "pastStates (handleSet s ?h) = drop (Suc (length ss) - limit) (s0 # ss)"
  proof (cases "limit \<le> length ss")
    case True
    then have "Suc (length ss) - limit = Suc (length ss - limit)" by simp
    with True show ?thesis
      unfolding handleSet_def Let_def push using len by (simp add: drop_Suc tl_drop)
  next
    case False
    then show ?thesis unfolding handleSet_def Let_def push using len by simp
  qed
  show ?case unfolding run
    by (simp add: past bl handleSet_fields del: butlast.simps)
qed

lemma timeline_undo: "timeline (undo h) = timeline h"
  by (simp add: timeline_def undo_def)

lemma timeline_redo: "timeline (redo h) = timeline h"
  by (cases "futureStates h") (simp_all add: timeline_def redo_def)

lemma past_undo: "length (pastStates (undo h)) = length (pastStates h) - 1"
  by (simp add: undo_def)

lemma present_timeline: "present h = timeline h ! length (pastStates h)"
  by (simp add: timeline_def)

lemma undo_funpow:
  "timeline ((undo ^^ k) h) = timeline h
   \<and> length (pastStates ((undo ^^ k) h)) = length (pastStates h) - k"
  by (induction k) (simp_all add: timeline_undo past_undo)

lemma undo_exhausted: "pastStates h = [] \<Longrightarrow> (undo ^^ k) h = h"
  by (induction k) (simp_all add: undo_def)

lemma timeline_no_mutation:
  "\<forall>op \<in> set ops. \<not> isMutate op \<Longrightarrow> timeline (runOps h ops) = timeline h"
proof (induction ops arbitrary: h)
  case Nil
  then show ?case by (simp add: runOps_def)
next
  case (Cons op ops)
  then have "timeline (applyOp h op) = timeline h"
    by (cases op) (simp_all add: isMutate_def timeline_undo timeline_redo)
  moreover have "runOps h (op # ops) = runOps (applyOp h op) ops" by (simp add: runOps_def)
  ultimately show ?case using Cons by simp
qed

text \<open>The history after a run of tracked mutations of the store.\<close>

lemma trackAll_history:
  "trackAll s0 ss =
     \<lparr>pastStates = drop (length ss - limit) (butlast (map partialize (s0 # ss))),
      present = last (map partialize (s0 # ss)),
      futureStates = []\<rparr>"
proof -
  have e: "map (\<lambda>s. Mutate (partialize s)) ss = map Mutate (map partialize ss)" by simp
  show ?thesis
    unfolding trackAll_def e mutations_history by (simp only: list.map length_map)
qed

lemma trackAll_150:
  fixes s0 :: ProjectState and ss :: "ProjectState list"
  assumes len: "length ss = 150"
  defines "every \<equiv> map partialize (s0 # ss)"
  shows "timeline (trackAll s0 ss) = drop 50 every"
    and "length (pastStates (trackAll s0 ss)) = 100"
proof -
  define b where "b = butlast every"
  define l where "l = last every"
  have whole: "b @ [l] = every"
    unfolding b_def l_def every_def by (rule append_butlast_last_id) simp
  have lb: "length b = 150" unfolding b_def every_def using len by (simp del: list.map)
  have "length ss - limit = 50" using len by (simp add: limit_def)
  then have h: "trackAll s0 ss = \<lparr>pastStates = drop 50 b, present = l, futureStates = []\<rparr>"
    unfolding b_def l_def every_def trackAll_history by (simp only:)
  have "drop 50 b @ [l] = drop 50 (b @ [l])" using lb by simp
  then show "timeline (trackAll s0 ss) = drop 50 every"
    unfolding whole by (simp add: timeline_def h)
  show "length (pastStates (trackAll s0 ss)) = 100" by (simp add: h lb)
qed

text \<open>
  Claim C4. The undo history over the tracked slice never holds more than 100 past
  snapshots, whatever mutations, undos and redos are run: a tracked mutation pushes the
  previous present onto the past and clears the future, evicting the oldest past entry
  when the capacity of 100 is exceeded. After 150 tracked mutations with distinct tracked
  slices, the past holds 100 snapshots; the k-th undo, for k from 1 to 100, restores the
  state before the k-th last mutation; further undos change nothing; so exactly 100
  states are reachable by repeated undo, and none of the oldest 50 states is held by the
  history after any run of undos and redos.
\<close>

theorem history_bounded:
  fixes s0 :: ProjectState and ss :: "ProjectState list" and h :: "'s History"
  shows "length (pastStates (runOps (initHistory s) ops)) \<le> 100
   \<and> present (handleSet n h) = n \<and> futureStates (handleSet n h) = []
   \<and> (length (pastStates h) < 100 \<longrightarrow> pastStates (handleSet n h) = pastStates h @ [present h])
   \<and> (length (pastStates h) = 100
        \<longrightarrow> pastStates (handleSet n h) = tl (pastStates h) @ [present h])
   \<and> (length ss = 150 \<and> distinct (map partialize (s0 # ss)) \<longrightarrow>
        length (pastStates (trackAll s0 ss)) = 100
      \<and> (\<forall>k. 1 \<le> k \<and> k \<le> 100 \<longrightarrow>
            present ((undo ^^ k) (trackAll s0 ss)) = map partialize (s0 # ss) ! (150 - k))
      \<and> (\<forall>k. 100 \<le> k \<longrightarrow> (undo ^^ k) (trackAll s0 ss) = (undo ^^ 100) (trackAll s0 ss))
      \<and> card {present ((undo ^^ k) (trackAll s0 ss)) | k. 1 \<le> k} = 100
      \<and> (\<forall>i < 50. \<forall>ops. (\<forall>op \<in> set ops. \<not> isMutate op) \<longrightarrow>
            map partialize (s0 # ss) ! i \<notin> set (timeline (runOps (trackAll s0 ss) ops))))"
proof -
  have bound: "length (pastStates (runOps (initHistory s) ops)) \<le> 100"
    using runOps_bound[of "initHistory s" ops] by (simp add: initHistory_def limit_def)
  have step: "present (handleSet n h) = n \<and> futureStates (handleSet n h) = []
   \<and> (length (pastStates h) < 100 \<longrightarrow> pastStates (handleSet n h) = pastStates h @ [present h])
   \<and> (length (pastStates h) = 100
        \<longrightarrow> pastStates (handleSet n h) = tl (pastStates h) @ [present h])"
    using handleSet_fields[where s = n and h = h] by (simp add: limit_def)
  have many: "length (pastStates (trackAll s0 ss)) = 100
      \<and> (\<forall>k. 1 \<le> k \<and> k \<le> 100 \<longrightarrow>
            present ((undo ^^ k) (trackAll s0 ss)) = map partialize (s0 # ss) ! (150 - k))
      \<and> (\<forall>k. 100 \<le> k \<longrightarrow> (undo ^^ k) (trackAll s0 ss) = (undo ^^ 100) (trackAll s0 ss))
      \<and> card {present ((undo ^^ k) (trackAll s0 ss)) | k. 1 \<le> k} = 100
      \<and> (\<forall>i < 50. \<forall>ops. (\<forall>op \<in> set ops. \<not> isMutate op) \<longrightarrow>
            map partialize (s0 # ss) ! i \<notin> set (timeline (runOps (trackAll s0 ss) ops)))"
    if len: "length ss = 150" and dis: "distinct (map partialize (s0 # ss))"
  proof -
    define every where "every = map partialize (s0 # ss)"
    define t where "t = trackAll s0 ss"
    have le: "length every = 151" using len by (simp add: every_def)
    have tl: "timeline t = drop 50 every" and pl: "length (pastStates t) = 100"
      unfolding t_def every_def using trackAll_150[OF len] by simp_all
    have pres: "present ((undo ^^ k) t) = drop 50 every ! (100 - k)" for k
      using undo_funpow[of k t] present_timeline[of "(undo ^^ k) t"] by (simp add: tl pl)
    have a: "\<forall>k. 1 \<le> k \<and> k \<le> 100 \<longrightarrow> present ((undo ^^ k) t) = every ! (150 - k)"
      using le by (simp add: pres)
    have b: "\<forall>k. 100 \<le> k \<longrightarrow> (undo ^^ k) t = (undo ^^ 100) t"
    proof (intro allI impI)
      fix k :: nat assume "100 \<le> k"
      then have "k = (k - 100) + 100" by simp
      then have "(undo ^^ k) t = (undo ^^ (k - 100)) ((undo ^^ 100) t)"
        by (metis funpow_add o_apply)
      moreover have "pastStates ((undo ^^ 100) t) = []"
        using undo_funpow[of 100 t] by (simp add: pl)
      ultimately show "(undo ^^ k) t = (undo ^^ 100) t" by (simp add: undo_exhausted)
    qed
    have dd: "distinct (drop 50 every)" using dis by (simp add: every_def del: list.map)
    have "{present ((undo ^^ k) t) | k. 1 \<le> k} = set (take 100 (drop 50 every))"
    proof (intro set_eqI iffI)
      fix x assume "x \<in> {present ((undo ^^ k) t) | k. 1 \<le> k}"
      then obtain k where k: "1 \<le> k" "x = drop 50 every ! (100 - k)" using pres by auto
      then have "100 - k < length (take 100 (drop 50 every))" using le by simp
      then have "take 100 (drop 50 every) ! (100 - k) \<in> set (take 100 (drop 50 every))"
        by (rule nth_mem)
      with k show "x \<in> set (take 100 (drop 50 every))" by simp
    next
      fix x assume "x \<in> set (take 100 (drop 50 every))"
      then obtain j where j: "j < 100" "x = take 100 (drop 50 every) ! j"
        using le by (auto simp: in_set_conv_nth)
      then have "x = drop 50 every ! (100 - (100 - j))" by simp
      with pres[of "100 - j"] have "x = present ((undo ^^ (100 - j)) t)" by simp
      moreover have "1 \<le> 100 - j" using j by simp
      ultimately show "x \<in> {present ((undo ^^ k) t) | k. 1 \<le> k}" by blast
    qed
    moreover have "card (set (take 100 (drop 50 every))) = 100"
      using distinct_card[OF distinct_take[OF dd, of 100]] le by simp
    ultimately have c: "card {present ((undo ^^ k) t) | k. 1 \<le> k} = 100" by simp
    have d: "\<forall>i < 50. \<forall>ops. (\<forall>op \<in> set ops. \<not> isMutate op) \<longrightarrow>
            every ! i \<notin> set (timeline (runOps t ops))"
    proof (intro allI impI)
      fix i :: nat and ops :: "TrackedSlice HistoryOp list"
      assume i: "i < 50" and nm: "\<forall>op \<in> set ops. \<not> isMutate op"
      have "distinct every" using dis by (simp only: every_def)
      then have disj: "set (take 50 every) \<inter> set (drop 50 every) = {}"
        by (rule set_take_disj_set_drop_if_distinct) simp
      have "take 50 every ! i \<in> set (take 50 every)" by (rule nth_mem) (use i le in simp)
      then have "every ! i \<in> set (take 50 every)" using i by simp
      with disj have "every ! i \<notin> set (drop 50 every)" by blast
      then show "every ! i \<notin> set (timeline (runOps t ops))"
        using timeline_no_mutation[OF nm, of t] by (simp add: tl)
    qed
    from pl a b c d show ?thesis unfolding t_def every_def by blast
  qed
  from bound step many show ?thesis by blast
qed

lemma renamed_list: "renamed 0 # map renamed [1..<151] = map renamed [0..<151]"
  by (subst upt_conv_Cons[of 0 151]) simp_all

lemma renamed_distinct: "distinct (map partialize (renamed 0 # map renamed [1..<151]))"
proof -
  have "inj_on (partialize \<circ> renamed) (set [0..<151])"
  proof (rule inj_onI)
    fix a b :: nat
    assume "(partialize \<circ> renamed) a = (partialize \<circ> renamed) b"
    then have "project_name (ts_project (partialize (renamed a))) = project_name (ts_project (partialize (renamed b)))"
      by simp
    then have "replicate a CHR ''x'' = replicate b CHR ''x''"
      by (simp add: partialize_def)
    then have "length (replicate a CHR ''x'') = length (replicate b CHR ''x'')" by (rule arg_cong)
    then show "a = b" by simp
  qed
  then show ?thesis unfolding renamed_list by (simp only: map_map distinct_map distinct_upt)
qed

lemma renamed_nth:
  "k \<le> 150 \<Longrightarrow> map partialize (renamed 0 # map renamed [1..<151]) ! k = partialize (renamed k)"
  unfolding renamed_list by (simp del: upt_Suc)



lemma funpow_once: "((f :: 'a \<Rightarrow> 'a) ^^ 1) x = f x"
  by simp

theorem history_bounded_witness:
  "length (pastStates (trackAll (renamed 0) (map renamed [1..<151]))) = 100
   \<and> present (undo (trackAll (renamed 0) (map renamed [1..<151]))) = partialize (renamed 149)
   \<and> present ((undo ^^ 100) (trackAll (renamed 0) (map renamed [1..<151])))
       = partialize (renamed 50)
   \<and> (undo ^^ 101) (trackAll (renamed 0) (map renamed [1..<151]))
       = (undo ^^ 100) (trackAll (renamed 0) (map renamed [1..<151]))"
proof -
  let ?T = "trackAll (renamed 0) (map renamed [1..<151])"
  let ?every = "map partialize (renamed 0 # map renamed [1..<151])"
  have len: "length (map renamed [1..<151]) = 150" by simp
  note inst = history_bounded[of _ _ _ _ "map renamed [1..<151]" "renamed 0",
      THEN conjunct2, THEN conjunct2, THEN conjunct2, THEN conjunct2, THEN conjunct2,
      THEN mp, OF conjI, OF len renamed_distinct]
  note a = inst[THEN conjunct1]
  note b = inst[THEN conjunct2, THEN conjunct1, rule_format]
  note c = inst[THEN conjunct2, THEN conjunct2, THEN conjunct1, rule_format]
  have u1: "(undo ^^ 1) ?T = undo ?T" by (rule funpow_once)
  have "present ((undo ^^ 1) ?T) = ?every ! (150 - 1)" by (rule b) simp
  also have "(150::nat) - 1 = 149" by simp
  also have "?every ! 149 = partialize (renamed 149)" by (rule renamed_nth) simp
  finally have b1: "present (undo ?T) = partialize (renamed 149)" unfolding u1 .
  have "present ((undo ^^ 100) ?T) = ?every ! (150 - 100)" by (rule b) simp
  also have "(150::nat) - 100 = 50" by simp
  also have "?every ! 50 = partialize (renamed 50)" by (rule renamed_nth) simp
  finally have b100: "present ((undo ^^ 100) ?T) = partialize (renamed 50)" .
  have c101: "(undo ^^ 101) ?T = (undo ^^ 100) ?T" by (rule c) simp
  from a b1 b100 c101 show ?thesis by (intro conjI)
qed

section \<open>Cue sampler: the sampling loop\<close>

lemma sampleLoop_unroll:
  assumes pos: "0 < tickRate"
    and inside: "\<forall>k < n. t + real k * tickRate \<le> dur"
    and out: "\<not> t + real n * tickRate \<le> dur"
  shows "sampleLoop as dur tickRate t cues =
           Some (cues @ concat (map (\<lambda>k. sampleAt as (t + real k * tickRate)) [0..<n]))"
  using inside out
proof (induction n arbitrary: t cues)
  case 0
  then show ?case by (subst sampleLoop.simps) simp
next
  case (Suc n)
  from Suc.prems(1) have here: "t \<le> dur" by (metis mult_zero_left add.right_neutral of_nat_0 zero_less_Suc)
  have in': "\<forall>k < n. (t + tickRate) + real k * tickRate \<le> dur"
  proof (intro allI impI)
    fix k assume "k < n"
    then have "Suc k < Suc n" by simp
    with Suc.prems(1) have "t + real (Suc k) * tickRate \<le> dur" by blast
    then show "(t + tickRate) + real k * tickRate \<le> dur" by (simp add: algebra_simps)
  qed
  have out': "\<not> (t + tickRate) + real n * tickRate \<le> dur"
    using Suc.prems(2) by (simp add: algebra_simps)
  have shift: "map (\<lambda>k. sampleAt as (t + real k * tickRate)) [0..<Suc n]
        = sampleAt as t # map (\<lambda>k. sampleAt as ((t + tickRate) + real k * tickRate)) [0..<n]"
  proof -
    have "[0..<Suc n] = 0 # map Suc [0..<n]" by (simp add: upt_conv_Cons map_Suc_upt del: upt_Suc)
    then show ?thesis by (simp add: comp_def algebra_simps del: upt_Suc)
  qed
  have "sampleLoop as dur tickRate t cues
        = sampleLoop as dur tickRate (t + tickRate) (cues @ sampleAt as t)"
    using here by (subst sampleLoop.simps) simp
  also have "\<dots> = Some ((cues @ sampleAt as t)
        @ concat (map (\<lambda>k. sampleAt as ((t + tickRate) + real k * tickRate)) [0..<n]))"
    by (rule Suc.IH[OF in' out'])
  finally show ?case unfolding shift by simp
qed

text \<open>The number of samples taken over a duration that is not negative.\<close>

lemma sample_count:
  assumes pos: "0 < tickRate" and nn: "0 \<le> dur"
  defines "n \<equiv> Suc (nat \<lfloor>dur / tickRate\<rfloor>)"
  shows "\<forall>k < n. 0 + real k * tickRate \<le> dur" and "\<not> 0 + real n * tickRate \<le> dur"
proof -
  have q: "0 \<le> dur / tickRate" using pos nn by simp
  show "\<forall>k < n. 0 + real k * tickRate \<le> dur"
  proof (intro allI impI)
    fix k assume "k < n"
    moreover have "0 \<le> \<lfloor>dur / tickRate\<rfloor>" using q by simp
    ultimately have "int k \<le> \<lfloor>dur / tickRate\<rfloor>" unfolding n_def by linarith
    then have "real k \<le> dur / tickRate" by (simp add: le_floor_iff)
    then show "0 + real k * tickRate \<le> dur" using pos by (simp add: pos_le_divide_eq)
  qed
  have "dur / tickRate < real_of_int \<lfloor>dur / tickRate\<rfloor> + 1" by linarith
  also have "\<dots> = real n" using q by (simp add: n_def)
  finally have "dur < real n * tickRate" using pos by (simp add: pos_divide_less_eq)
  then show "\<not> 0 + real n * tickRate \<le> dur" by simp
qed

lemma sampleLoop_returns:
  assumes "0 < tickRate \<or> dur < 0"
  shows "\<exists>n. sampleLoop as dur tickRate 0 [] =
           Some (concat (map (\<lambda>k. sampleAt as (real k * tickRate)) [0..<n]))"
proof (cases "dur < 0")
  case True
  then have "sampleLoop as dur tickRate 0 [] = Some []" by (subst sampleLoop.simps) simp
  then have "sampleLoop as dur tickRate 0 [] =
           Some (concat (map (\<lambda>k. sampleAt as (real k * tickRate)) [0..<0]))" by simp
  then show ?thesis by blast
next
  case False
  with assms have pos: "0 < tickRate" and nn: "0 \<le> dur" by auto
  from sampleLoop_unroll[OF pos sample_count[OF pos nn], of as "[]"]
  have "sampleLoop as dur tickRate 0 [] =
           Some (concat (map (\<lambda>k. sampleAt as (real k * tickRate))
                   [0..<Suc (nat \<lfloor>dur / tickRate\<rfloor>)]))"
    by (simp only: add_0 append_Nil)
  then show ?thesis by blast
qed

text \<open>With a tick rate that is not positive the loop, once entered, never returns.\<close>

lemma sampleLoop_diverges:
  assumes neg: "tickRate \<le> 0" and here: "t \<le> dur"
  shows "sampleLoop as dur tickRate t cues = None"
proof (rule ccontr)
  assume "sampleLoop as dur tickRate t cues \<noteq> None"
  then obtain r where r: "sampleLoop as dur tickRate t cues = Some r" by blast
  have "\<not> (tickRate \<le> 0 \<and> t \<le> dur)"
  proof (rule sampleLoop.raw_induct[where P = "\<lambda>as dur tickRate t cues r.
            \<not> (tickRate \<le> 0 \<and> t \<le> dur)", OF _ r])
    fix loop as dur tickRate t cues r
    assume ih: "\<And>as dur tickRate t cues r. loop as dur tickRate t cues = Some r \<Longrightarrow>
            \<not> (tickRate \<le> 0 \<and> t \<le> dur)"
      and body: "(if t \<le> dur then loop as dur tickRate (t + tickRate) (cues @ sampleAt as t)
                 else Some cues) = Some (r :: ExportedCue list)"
    show "\<not> (tickRate \<le> 0 \<and> t \<le> dur)"
    proof
      assume a: "tickRate \<le> 0 \<and> t \<le> dur"
      with body have "loop as dur tickRate (t + tickRate) (cues @ sampleAt as t) = Some r"
        by simp
      from ih[OF this] a show False by simp
    qed
  qed
  with neg here show False by simp
qed

lemma generateCues_diverges:
  "0 < duration pb \<Longrightarrow> tickRate \<le> 0 \<Longrightarrow> generateCues lc as pb tickRate = None"
  by (simp add: generateCues_def Let_def sampleLoop_diverges)



lemma generateCues_returns:
  assumes "duration pb \<le> 0 \<or> 0 < tickRate"
  shows "\<exists>cues. generateCues lc as pb tickRate = Some cues"
proof (cases "duration pb = 0")
  case True
  then show ?thesis by (simp add: generateCues_def)
next
  case False
  with assms have "0 < tickRate \<or> duration pb < 0" by auto
  from sampleLoop_returns[OF this, of as] False show ?thesis
    by (auto simp: generateCues_def Let_def)
qed






section \<open>Cue sampler: rounding and order\<close>





lemma cueCompare_ordered: "cueCompare lc a b \<le> 0 \<longleftrightarrow> cueOrdered lc a b"
  by (auto simp: cueCompare_def cueOrdered_def)

lemma cueCompare_total:
  assumes "consistentCollation lc" "\<not> cueCompare lc a b \<le> 0"
  shows "cueCompare lc b a \<le> 0"
proof -
  from assms(1) have "lc (cue_id a) (cue_id b) \<le> 0 \<or> lc (cue_id b) (cue_id a) \<le> 0"
    unfolding consistentCollation_def by blast
  with assms(2) show ?thesis unfolding cueCompare_ordered cueOrdered_def by auto
qed

lemma cueCompare_trans:
  assumes "consistentCollation lc" "cueCompare lc a b \<le> 0" "cueCompare lc b c \<le> 0"
  shows "cueCompare lc a c \<le> 0"
proof -
  from assms(1) have tr: "lc (cue_id a) (cue_id b) \<le> 0 \<Longrightarrow> lc (cue_id b) (cue_id c) \<le> 0
      \<Longrightarrow> lc (cue_id a) (cue_id c) \<le> 0"
    unfolding consistentCollation_def by blast
  with assms(2,3) show ?thesis unfolding cueCompare_ordered cueOrdered_def by auto
qed

lemma sortBy_cues_ordered:
  assumes "consistentCollation lc"
  shows "sorted_wrt (cueOrdered lc) (sortBy (cueCompare lc) cues)"
proof -
  have "sorted_wrt (\<lambda>a b. cueCompare lc a b \<le> 0) (sortBy (cueCompare lc) cues)"
    by (rule sorted_sortBy) (use assms cueCompare_total cueCompare_trans in blast)+
  then show ?thesis by (simp add: cueCompare_ordered)
qed

lemma lexCompare_total: "lexCompare a b \<le> 0 \<or> lexCompare b a \<le> 0"
  by (induction a b rule: lexCompare.induct) auto

lemma lexCompare_trans:
  "lexCompare a b \<le> 0 \<Longrightarrow> lexCompare b c \<le> 0 \<Longrightarrow> lexCompare a c \<le> 0"
proof (induction a arbitrary: b c)
  case Nil
  then show ?case by (cases c) simp_all
next
  case (Cons x xs)
  from Cons.prems(1) obtain y ys where b: "b = y # ys" by (cases b) auto
  from Cons.prems(2) b obtain z zs where c: "c = z # zs" by (cases c) auto
  from Cons.prems b c Cons.IH[of ys zs] show ?case
    by (auto split: if_splits)
qed

lemma lexCompare_consistent: "consistentCollation lexCompare"
  unfolding consistentCollation_def using lexCompare_total lexCompare_trans by blast

text \<open>
  Claim C7. For every actor list, duration and tick rate, and every consistent collation
  of the platform, a cue list that \<open>generateCues\<close> returns is sorted by ascending
  \<open>t\<close> and, among equal \<open>t\<close>, by the collation of \<open>id\<close>; it returns exactly when
  the duration is not positive or the tick rate is positive; and the result is a function
  of the inputs, so two runs on the same inputs give the same list.
\<close>

theorem generateCues_sorted:
  assumes "consistentCollation lc"
  shows "(\<forall>cues. generateCues lc as pb tickRate = Some cues \<longrightarrow> sorted_wrt (cueOrdered lc) cues)
   \<and> ((\<exists>cues. generateCues lc as pb tickRate = Some cues) \<longleftrightarrow> duration pb \<le> 0 \<or> 0 < tickRate)
   \<and> (\<forall>r1 r2. generateCues lc as pb tickRate = r1 \<and> generateCues lc as pb tickRate = r2
         \<longrightarrow> r1 = r2)"
proof -
  have "sorted_wrt (cueOrdered lc) cues" if "generateCues lc as pb tickRate = Some cues" for cues
  proof -
    from that obtain r where "cues = sortBy (cueCompare lc) r"
      by (auto simp: generateCues_def Let_def split: if_splits)
    then show ?thesis using sortBy_cues_ordered[OF assms] by simp
  qed
  moreover have "(\<exists>cues. generateCues lc as pb tickRate = Some cues)
      \<longleftrightarrow> duration pb \<le> 0 \<or> 0 < tickRate"
  proof
    assume "\<exists>cues. generateCues lc as pb tickRate = Some cues"
    then show "duration pb \<le> 0 \<or> 0 < tickRate"
      using generateCues_diverges[of pb tickRate lc as] by fastforce
  next
    assume "duration pb \<le> 0 \<or> 0 < tickRate"
    then show "\<exists>cues. generateCues lc as pb tickRate = Some cues"
      by (rule generateCues_returns)
  qed
  ultimately show ?thesis by blast
qed

theorem generateCues_sorted_witness:
  "generateCues lexCompare
     [\<lparr>actor_id = ''1'', label = ''B'', shapes = [],
       keyframes = [\<lparr>time = 0, kvalue = 1\<rparr>], interpolation = Step\<rparr>,
      \<lparr>actor_id = ''2'', label = ''A'', shapes = [],
       keyframes = [\<lparr>time = 0, kvalue = 0\<rparr>, \<lparr>time = 1, kvalue = 1\<rparr>], interpolation = Linear\<rparr>]
     (initialPlayback\<lparr>duration := 1\<rparr>) (1 / 2)
   = Some [\<lparr>cue_t = 0, cue_id = ''A'', cue_state = 0\<rparr>,
           \<lparr>cue_t = 0, cue_id = ''B'', cue_state = 1\<rparr>,
           \<lparr>cue_t = 1 / 2, cue_id = ''A'', cue_state = 1 / 2\<rparr>,
           \<lparr>cue_t = 1 / 2, cue_id = ''B'', cue_state = 1\<rparr>,
           \<lparr>cue_t = 1, cue_id = ''A'', cue_state = 1\<rparr>,
           \<lparr>cue_t = 1, cue_id = ''B'', cue_state = 1\<rparr>]
   \<and> cueOrdered lexCompare \<lparr>cue_t = 0, cue_id = ''A'', cue_state = 0\<rparr>
         \<lparr>cue_t = 0, cue_id = ''B'', cue_state = 1\<rparr>
   \<and> cueOrdered lexCompare \<lparr>cue_t = 0, cue_id = ''B'', cue_state = 1\<rparr>
         \<lparr>cue_t = 1 / 2, cue_id = ''A'', cue_state = 1 / 2\<rparr>"
proof -
  have v: "generateCues lexCompare
     [\<lparr>actor_id = ''1'', label = ''B'', shapes = [],
       keyframes = [\<lparr>time = 0, kvalue = 1\<rparr>], interpolation = Step\<rparr>,
      \<lparr>actor_id = ''2'', label = ''A'', shapes = [],
       keyframes = [\<lparr>time = 0, kvalue = 0\<rparr>, \<lparr>time = 1, kvalue = 1\<rparr>], interpolation = Linear\<rparr>]
     (initialPlayback\<lparr>duration := 1\<rparr>) (1 / 2)
   = Some [\<lparr>cue_t = 0, cue_id = ''A'', cue_state = 0\<rparr>,
           \<lparr>cue_t = 0, cue_id = ''B'', cue_state = 1\<rparr>,
           \<lparr>cue_t = 1 / 2, cue_id = ''A'', cue_state = 1 / 2\<rparr>,
           \<lparr>cue_t = 1 / 2, cue_id = ''B'', cue_state = 1\<rparr>,
           \<lparr>cue_t = 1, cue_id = ''A'', cue_state = 1\<rparr>,
           \<lparr>cue_t = 1, cue_id = ''B'', cue_state = 1\<rparr>]"
    by (simp add: generateCues_def initialPlayback_def sampleLoop.simps sampleAt_def Math_round_def
        getActorValueAtTime_def findSurrounding_def scanStep_def sortBy_def cueCompare_def)
  from generateCues_sorted[OF lexCompare_consistent, of
      "[\<lparr>actor_id = ''1'', label = ''B'', shapes = [],
       keyframes = [\<lparr>time = 0, kvalue = 1\<rparr>], interpolation = Step\<rparr>,
      \<lparr>actor_id = ''2'', label = ''A'', shapes = [],
       keyframes = [\<lparr>time = 0, kvalue = 0\<rparr>, \<lparr>time = 1, kvalue = 1\<rparr>], interpolation = Linear\<rparr>]"
      "initialPlayback\<lparr>duration := 1\<rparr>" "1 / 2"] v
  show ?thesis by (simp add: cueOrdered_def)
qed

end
